theory Spec2Isabelle
  imports Main "HOL-Library.Char_ord" "HOL-Library.List_Lexorder" "HOL-Library.AList"
begin

section \<open>Python strings\<close>

text \<open>
  A Python \<open>str\<close> is modelled as a \<open>string\<close>, each \<open>char\<close> being one code point in the
  range U+0000 to U+00FF. The functions below are the string operations the program calls,
  with the behaviour Python gives them on that range.
\<close>

definition code_point :: "char \<Rightarrow> nat" where
  "code_point ch = of_char ch"

text \<open>\<open>str.lower()\<close>: A to Z and the upper-case letters U+00C0 to U+00DE (U+00D7, the
  multiplication sign, is not a letter) move up by 32; every other code point stays.\<close>

definition lower_char :: "char \<Rightarrow> char" where
  "lower_char ch =
     (let n = code_point ch
      in if (65 \<le> n \<and> n \<le> 90) \<or> (192 \<le> n \<and> n \<le> 222 \<and> n \<noteq> 215)
         then char_of (n + 32) else ch)"

definition lower :: "string \<Rightarrow> string" where
  "lower s = map lower_char s"

text \<open>\<open>str.isspace()\<close>, which is also the regular expression class \<open>\s\<close>.\<close>

definition is_space :: "char \<Rightarrow> bool" where
  "is_space ch =
     (let n = code_point ch
      in (9 \<le> n \<and> n \<le> 13) \<or> (28 \<le> n \<and> n \<le> 32) \<or> n = 133 \<or> n = 160)"

text \<open>The regular expression class \<open>\d\<close>: the decimal digits.\<close>

definition is_digit :: "char \<Rightarrow> bool" where
  "is_digit ch = (let n = code_point ch in 48 \<le> n \<and> n \<le> 57)"

text \<open>The regular expression class \<open>\w\<close>: the underscore and every alphanumeric code point
  (letters, digits, and the superscript digits and vulgar fractions of Latin-1).\<close>

definition is_word :: "char \<Rightarrow> bool" where
  "is_word ch =
     (let n = code_point ch
      in (48 \<le> n \<and> n \<le> 57) \<or> (65 \<le> n \<and> n \<le> 90) \<or> n = 95 \<or> (97 \<le> n \<and> n \<le> 122)
         \<or> n = 170 \<or> n = 178 \<or> n = 179 \<or> n = 181 \<or> n = 185 \<or> n = 186
         \<or> (188 \<le> n \<and> n \<le> 190) \<or> (192 \<le> n \<and> n \<le> 214) \<or> (216 \<le> n \<and> n \<le> 246)
         \<or> 248 \<le> n)"

text \<open>\<open>s.startswith(p)\<close>, with the prefix as the first argument.\<close>

fun startswith :: "string \<Rightarrow> string \<Rightarrow> bool" where
  "startswith [] s = True"
| "startswith (p # ps) [] = False"
| "startswith (p # ps) (x # xs) = (p = x \<and> startswith ps xs)"

text \<open>\<open>p in s\<close> on strings: \<open>p\<close> occurs in \<open>s\<close> as a contiguous substring.\<close>

fun str_in :: "string \<Rightarrow> string \<Rightarrow> bool" where
  "str_in p [] = (p = [])"
| "str_in p (x # xs) = (startswith p (x # xs) \<or> str_in p xs)"

text \<open>\<open>s.strip()\<close>: white space removed at both ends.\<close>

definition strip :: "string \<Rightarrow> string" where
  "strip s = rev (dropWhile is_space (rev (dropWhile is_space s)))"

text \<open>\<open>s.split(".", 1)[0]\<close>: the part of \<open>s\<close> before its first full stop.\<close>

definition before_dot :: "string \<Rightarrow> string" where
  "before_dot s = takeWhile (\<lambda>ch. ch \<noteq> CHR ''.'') s"

text \<open>\<open>str(n)\<close> for an integer.\<close>

fun str_nat :: "nat \<Rightarrow> string" where
  "str_nat n =
     (if n < 10 then [''0123456789'' ! n]
      else str_nat (n div 10) @ [''0123456789'' ! (n mod 10)])"

definition str_int :: "int \<Rightarrow> string" where
  "str_int i = (if i < 0 then CHR ''-'' # str_nat (nat (- i)) else str_nat (nat i))"

subsection \<open>The two regular expressions of the scorer\<close>

text \<open>
  \<open>re.search(r"\b\d{2}h[12]\b", t)\<close> as a truth value. A match starts at a digit, so the
  leading \<open>\b\<close> asks for the start of the text or a non-word character before it; it ends at
  \<open>1\<close> or \<open>2\<close>, so the trailing \<open>\b\<close> asks for the end of the text or a non-word
  character after it. The first argument is the character before the current position.
\<close>

fun half_year_here :: "string \<Rightarrow> bool" where
  "half_year_here (d1 # d2 # h # n # rest) =
     (is_digit d1 \<and> is_digit d2 \<and> h = CHR ''h'' \<and> (n = CHR ''1'' \<or> n = CHR ''2'')
      \<and> (case rest of [] \<Rightarrow> True | r # _ \<Rightarrow> \<not> is_word r))"
| "half_year_here _ = False"

fun search_half_year_from :: "char option \<Rightarrow> string \<Rightarrow> bool" where
  "search_half_year_from prev [] = False"
| "search_half_year_from prev (x # xs) =
     (((case prev of None \<Rightarrow> True | Some p \<Rightarrow> \<not> is_word p) \<and> half_year_here (x # xs))
      \<or> search_half_year_from (Some x) xs)"

definition search_half_year :: "string \<Rightarrow> bool" where
  "search_half_year t = search_half_year_from None t"

text \<open>
  \<open>re.search(r"\(\s*(\d{5})\.", t)\<close>: the group of the leftmost match, or \<open>None\<close>. White
  space and digits are disjoint, so \<open>\s*\<close> takes exactly the white space after the bracket.
\<close>

fun build_here :: "string \<Rightarrow> string option" where
  "build_here [] = None"
| "build_here (x # xs) =
     (if x = CHR ''('' then
        (case dropWhile is_space xs of
           d1 # d2 # d3 # d4 # d5 # dot # _ \<Rightarrow>
             if is_digit d1 \<and> is_digit d2 \<and> is_digit d3 \<and> is_digit d4 \<and> is_digit d5
                \<and> dot = CHR ''.''
             then Some [d1, d2, d3, d4, d5] else None
         | _ \<Rightarrow> None)
      else None)"

fun search_build :: "string \<Rightarrow> string option" where
  "search_build [] = None"
| "search_build (x # xs) =
     (case build_here (x # xs) of Some g \<Rightarrow> Some g | None \<Rightarrow> search_build xs)"

section \<open>The downloader: constraints, scoring and selection\<close>

record CatalogCandidate =
  update_id :: string
  title :: string
  products :: string
  classification :: string
  last_updated :: string
  version :: string
  size_text :: string

record BaselineConstraints =
  windows_gen :: string
  display_version :: string
  build_major :: string
  catalog_arch :: string

text \<open>
  The baseline is the dictionary read from the scan result. A field is \<open>None\<close> when the key
  is missing or null; \<open>IsAdmin\<close> is a boolean, the other fields are strings.
\<close>

record Baseline =
  IsAdmin :: "bool option"
  LcuMonthId :: "string option"
  MsrcLatestMonthId :: "string option"
  OsName :: "string option"
  DisplayVersion :: "string option"
  Architecture :: "string option"
  Build :: "string option"

text \<open>\<open>str(d.get(key) or "")\<close> for a string field.\<close>

definition get_str :: "string option \<Rightarrow> string" where
  "get_str v = (case v of None \<Rightarrow> [] | Some s \<Rightarrow> s)"

definition build_constraints :: "Baseline \<Rightarrow> BaselineConstraints" where
  "build_constraints baseline =
     (let os_name = get_str (OsName baseline);
          display_version = get_str (DisplayVersion baseline);
          arch = get_str (Architecture baseline);
          build = get_str (Build baseline);
          build_major = (if build \<noteq> [] then before_dot build else []);
          os_lower = lower os_name;
          windows_gen =
            (if str_in ''windows 11'' os_lower then ''windows 11''
             else if str_in ''windows 10'' os_lower then ''windows 10''
             else []);
          arch_lower = lower arch;
          catalog_arch =
            (if arch_lower = ''x64'' \<or> arch_lower = ''amd64'' then ''x64''
             else if str_in ''arm64'' arch_lower then ''arm64''
             else if arch_lower = ''x86'' \<or> arch_lower = ''32-bit'' then ''x86''
             else ''x64'')
      in \<lparr> windows_gen = windows_gen,
           display_version = strip display_version,
           build_major = strip build_major,
           catalog_arch = catalog_arch \<rparr>)"

text \<open>
  \<open>score_candidate\<close>. Each \<open>return -10_000\<close> of the source is a branch that yields
  \<open>- 10000\<close> at once; the architecture block, whose returns sit inside an \<open>if/elif\<close> chain,
  yields \<open>None\<close> for a return and the updated score otherwise.
\<close>

definition score_candidate :: "CatalogCandidate \<Rightarrow> string \<Rightarrow> BaselineConstraints \<Rightarrow> int" where
  "score_candidate candidate kb_id c =
     (let t = lower (title candidate);
          score = (0::int)
      in if \<not> str_in (lower kb_id) t then - 10000
         else
           let score = score + 50;
               score = (if windows_gen c \<noteq> [] \<and> str_in (windows_gen c) t
                        then score + 40 else score)
           in if windows_gen c \<noteq> [] \<and> windows_gen c = ''windows 10'' \<and> str_in ''windows 11'' t
              then - 10000
              else if windows_gen c \<noteq> [] \<and> windows_gen c = ''windows 11''
                      \<and> str_in ''windows 10'' t
              then - 10000
              else if startswith ''windows '' (windows_gen c) \<and> str_in ''server'' t
              then - 10000
              else
                case (if catalog_arch c = ''x64'' then
                        (if str_in ''arm64-based'' t \<or> str_in ''x86-based'' t \<or> str_in ''32-bit'' t
                         then None
                         else if str_in ''x64-based'' t then Some (score + 25) else Some score)
                      else if catalog_arch c = ''arm64'' then
                        (if str_in ''x64-based'' t \<or> str_in ''x86-based'' t \<or> str_in ''32-bit'' t
                         then None
                         else if str_in ''arm64-based'' t then Some (score + 25) else Some score)
                      else if catalog_arch c = ''x86'' then
                        (if str_in ''x64-based'' t \<or> str_in ''arm64-based'' t
                         then None
                         else if str_in ''x86-based'' t \<or> str_in ''32-bit'' t
                              then Some (score + 25) else Some score)
                      else Some score) of
                  None \<Rightarrow> - 10000
                | Some score \<Rightarrow>
                    let dv = strip (lower (display_version c));
                        score = (if dv \<noteq> [] \<and> str_in dv t then score + 25 else score);
                        score = (if dv \<noteq> [] \<and> search_half_year t \<and> \<not> str_in dv t
                                 then score - 15 else score);
                        score =
                          (if build_major c \<noteq> [] then
                             (case search_build t of
                                Some g \<Rightarrow> (if g = build_major c then score + 10 else score - 5)
                              | None \<Rightarrow> score)
                           else score)
                    in score)"

definition no_match_message :: string where
  "no_match_message = ''No candidate matched baseline constraints.''"

definition ambiguous_message :: "int \<Rightarrow> string" where
  "ambiguous_message best_score =
     ''Ambiguous match (best score '' @ str_int best_score @ '' below threshold).''"

text \<open>
  \<open>choose_best_candidate\<close>. \<open>scored\<close> is built in input order; \<open>list.sort\<close> with
  \<open>reverse=True\<close> is stable, so it is the stable sort on the negated score. The result is the
  pair the source returns: the selected candidate or \<open>None\<close>, and the rejection message or
  \<open>None\<close>.
\<close>

definition choose_best_candidate ::
  "CatalogCandidate list \<Rightarrow> string \<Rightarrow> BaselineConstraints
     \<Rightarrow> CatalogCandidate option \<times> string option" where
  "choose_best_candidate candidates kb_id constraints =
     (let scored = filter (\<lambda>(s, cand). 0 \<le> s)
                     (map (\<lambda>cand. (score_candidate cand kb_id constraints, cand)) candidates)
      in if scored = [] then (None, Some no_match_message)
         else
           (case sort_key (\<lambda>x. - fst x) scored of
              (best_score, best) # _ \<Rightarrow>
                if best_score < 90 then (None, Some (ambiguous_message best_score))
                else (Some best, None)
            | [] \<Rightarrow> (None, Some no_match_message)))"

subsection \<open>The scorer, block by block\<close>

text \<open>
  The blocks of \<open>score_candidate\<close> after the early returns, each as a function of the
  lower-cased title and of the score so far: the generation bonus, the architecture
  \<open>if/elif\<close> chain, and the display-version and build-major adjustments.
  \<open>score_candidate_blocks\<close> below shows \<open>score_candidate\<close> to be their composition.
\<close>

definition generation_points :: "BaselineConstraints \<Rightarrow> string \<Rightarrow> int \<Rightarrow> int" where
  "generation_points c t score =
     (if windows_gen c \<noteq> [] \<and> str_in (windows_gen c) t then score + 40 else score)"

definition architecture_rule :: "BaselineConstraints \<Rightarrow> string \<Rightarrow> int \<Rightarrow> int option" where
  "architecture_rule c t score =
     (if catalog_arch c = ''x64'' then
        (if str_in ''arm64-based'' t \<or> str_in ''x86-based'' t \<or> str_in ''32-bit'' t
         then None
         else if str_in ''x64-based'' t then Some (score + 25) else Some score)
      else if catalog_arch c = ''arm64'' then
        (if str_in ''x64-based'' t \<or> str_in ''x86-based'' t \<or> str_in ''32-bit'' t
         then None
         else if str_in ''arm64-based'' t then Some (score + 25) else Some score)
      else if catalog_arch c = ''x86'' then
        (if str_in ''x64-based'' t \<or> str_in ''arm64-based'' t
         then None
         else if str_in ''x86-based'' t \<or> str_in ''32-bit'' t
              then Some (score + 25) else Some score)
      else Some score)"

definition version_build_points :: "BaselineConstraints \<Rightarrow> string \<Rightarrow> int \<Rightarrow> int" where
  "version_build_points c t score =
     (let dv = strip (lower (display_version c));
          score = (if dv \<noteq> [] \<and> str_in dv t then score + 25 else score);
          score = (if dv \<noteq> [] \<and> search_half_year t \<and> \<not> str_in dv t
                   then score - 15 else score);
          score =
            (if build_major c \<noteq> [] then
               (case search_build t of
                  Some g \<Rightarrow> (if g = build_major c then score + 10 else score - 5)
                | None \<Rightarrow> score)
             else score)
      in score)"

subsection \<open>Architecture markers\<close>

text \<open>
  The title markers of each architecture family, as the architecture block tests them, and
  what it means for two titles to differ in nothing the scorer looks at except the marker
  of the baseline's own family: every other substring test and both regular expressions
  give the same answer on both.
\<close>

definition arch_markers :: "string \<Rightarrow> string list" where
  "arch_markers a =
     (if a = ''x64'' then [''x64-based'']
      else if a = ''arm64'' then [''arm64-based'']
      else if a = ''x86'' then [''x86-based'', ''32-bit'']
      else [])"

definition names_arch :: "string \<Rightarrow> string \<Rightarrow> bool" where
  "names_arch a t = list_ex (\<lambda>m. str_in m t) (arch_markers a)"

definition same_other_signals :: "string \<Rightarrow> BaselineConstraints \<Rightarrow> string \<Rightarrow> string \<Rightarrow> bool" where
  "same_other_signals kb_id c t t' =
     (list_all (\<lambda>p. str_in p t' = str_in p t)
        [lower kb_id, windows_gen c, ''windows 10'', ''windows 11'', ''server'',
         strip (lower (display_version c))]
      \<and> list_all (\<lambda>a. a = catalog_arch c \<or> names_arch a t' = names_arch a t)
          [''x64'', ''arm64'', ''x86'']
      \<and> search_half_year t' = search_half_year t
      \<and> search_build t' = search_build t)"

subsection \<open>The catalog scenario\<close>

text \<open>
  A Windows 11 23H2 x64 baseline and three catalog titles for KB5031354: for x64, for ARM64,
  and one that names no architecture.
\<close>

definition titled :: "string \<Rightarrow> CatalogCandidate" where
  "titled t = \<lparr> update_id = [], title = t, products = [], classification = [],
                last_updated = [], version = [], size_text = [] \<rparr>"

definition scenario_constraints :: BaselineConstraints where
  "scenario_constraints = \<lparr> windows_gen = ''windows 11'', display_version = ''23H2'',
                            build_major = ''22631'', catalog_arch = ''x64'' \<rparr>"

definition title_x64 :: string where
  "title_x64 = ''2023-10 Cumulative Update for Windows 11 Version 23H2 for x64-based Systems (KB5031354)''"
definition title_arm64 :: string where
  "title_arm64 = ''2023-10 Cumulative Update for Windows 11 Version 23H2 for ARM64-based Systems (KB5031354)''"
definition title_plain :: string where
  "title_plain = ''2023-10 Cumulative Update for Windows 11 Version 23H2 (KB5031354)''"

section \<open>The scanner: month range\<close>

text \<open>
  The exceptions the scanner can raise. Every \<open>raise\<close> of the program itself is a
  \<open>RuntimeError\<close> with a message; the standard library raises \<open>ValueError\<close>, whose
  message is not modelled. \<open>exception_class\<close> is the name of the exception's class, the only
  kind an exception of this program carries.
\<close>

datatype py_error = RuntimeError string | ValueError

fun exception_class :: "py_error \<Rightarrow> string" where
  "exception_class (RuntimeError msg) = ''RuntimeError''"
| "exception_class ValueError = ''ValueError''"

text \<open>
  A \<open>datetime\<close> in UTC: year, month, day, and the time of day in microseconds. Two of them
  compare as their four fields do, in that order.
\<close>

record datetime =
  dt_year :: int
  dt_month :: int
  dt_day :: int
  dt_time :: nat

definition dt_less :: "datetime \<Rightarrow> datetime \<Rightarrow> bool" where
  "dt_less a b =
     (dt_year a < dt_year b
      \<or> (dt_year a = dt_year b
          \<and> (dt_month a < dt_month b
              \<or> (dt_month a = dt_month b
                  \<and> (dt_day a < dt_day b \<or> (dt_day a = dt_day b \<and> dt_time a < dt_time b))))))"

text \<open>\<open>datetime(year, month, 1, tzinfo=UTC)\<close>, which raises \<open>ValueError\<close> outside the years
  1 to 9999 and the months 1 to 12.\<close>

definition first_of_month :: "int \<Rightarrow> int \<Rightarrow> py_error + datetime" where
  "first_of_month y m =
     (if 1 \<le> y \<and> y \<le> 9999 \<and> 1 \<le> m \<and> m \<le> 12
      then Inr \<lparr> dt_year = y, dt_month = m, dt_day = 1, dt_time = 0 \<rparr>
      else Inl ValueError)"

definition month_abbr :: "string list" where
  "month_abbr = [''Jan'', ''Feb'', ''Mar'', ''Apr'', ''May'', ''Jun'',
                 ''Jul'', ''Aug'', ''Sep'', ''Oct'', ''Nov'', ''Dec'']"

text \<open>The position of an abbreviated month name, counted from 1, letter case ignored.\<close>

fun month_number :: "string \<Rightarrow> string list \<Rightarrow> int \<Rightarrow> int option" where
  "month_number s [] n = None"
| "month_number s (name # names) n =
     (if lower s = lower name then Some n else month_number s names (n + 1))"

definition digit_value :: "char \<Rightarrow> int" where
  "digit_value ch = int (code_point ch) - 48"

text \<open>
  \<open>datetime.strptime(s, "%Y-%b").replace(day=1, tzinfo=UTC)\<close> in the English locale: the
  whole text must be four decimal digits, a hyphen and an abbreviated month name; the year
  0000 is out of the range of \<open>datetime\<close>.
\<close>

fun strptime_Y_b :: "string \<Rightarrow> py_error + datetime" where
  "strptime_Y_b [y1, y2, y3, y4, hyphen, m1, m2, m3] =
     (if is_digit y1 \<and> is_digit y2 \<and> is_digit y3 \<and> is_digit y4 \<and> hyphen = CHR ''-''
      then (case month_number [m1, m2, m3] month_abbr 1 of
              None \<Rightarrow> Inl ValueError
            | Some m \<Rightarrow>
                first_of_month
                  (1000 * digit_value y1 + 100 * digit_value y2
                     + 10 * digit_value y3 + digit_value y4) m)
      else Inl ValueError)"
| "strptime_Y_b s = Inl ValueError"

text \<open>\<open>d.strftime("%Y-%b")\<close>: the year in four digits (as the C library of Windows, where
  the program runs, writes it), a hyphen, the month name.\<close>

definition strftime_Y_b :: "datetime \<Rightarrow> string" where
  "strftime_Y_b d =
     (let y = str_nat (nat (dt_year d))
      in replicate (4 - length y) (CHR ''0'') @ y @ ''-'' @ month_abbr ! nat (dt_month d - 1))"

text \<open>
  The \<open>while True\<close> loop of \<open>build_month_ids_from_lcu\<close>, on the loop variables \<open>year\<close>,
  \<open>month\<close> and \<open>month_ids\<close>.
\<close>

function month_loop ::
  "datetime \<Rightarrow> int \<Rightarrow> int \<Rightarrow> int \<Rightarrow> string list \<Rightarrow> py_error + string list" where
  "month_loop end_dt max_months year month month_ids =
     (case first_of_month year month of
        Inl e \<Rightarrow> Inl e
      | Inr current \<Rightarrow>
          if dt_less end_dt current then Inr month_ids
          else
            let month_ids = month_ids @ [strftime_Y_b current]
            in if current = end_dt \<or> max_months \<le> int (length month_ids) then Inr month_ids
               else
                 let month = month + 1
                 in if month = 13 then month_loop end_dt max_months (year + 1) 1 month_ids
                    else month_loop end_dt max_months year month month_ids)"
  by pat_completeness auto
termination
  by (relation "measure (\<lambda>(end_dt, max_months, year, month, month_ids).
                   nat (120001 - (12 * year + month)))")
     (auto simp: first_of_month_def split: if_splits)

definition not_admin_message :: string where
  "not_admin_message =
     ''Baseline collected without administrative privileges. LCU detection requires elevation.''"

definition no_lcu_message :: string where
  "no_lcu_message = ''Baseline did not provide LcuMonthId.''"

text \<open>
  \<open>build_month_ids_from_lcu\<close>. The first argument is the reading of the clock,
  \<open>datetime.now(UTC)\<close>, which the program takes when the baseline has no end month.
\<close>

definition build_month_ids_from_lcu ::
  "datetime \<Rightarrow> Baseline \<Rightarrow> int \<Rightarrow> py_error + string list" where
  "build_month_ids_from_lcu now baseline max_months =
     (if IsAdmin baseline \<noteq> Some True then Inl (RuntimeError not_admin_message)
      else
        let lcu_month_id = get_str (LcuMonthId baseline)
        in if lcu_month_id = [] then Inl (RuntimeError no_lcu_message)
           else
             let msrc_latest_month_id = get_str (MsrcLatestMonthId baseline)
             in case (if msrc_latest_month_id \<noteq> [] then strptime_Y_b msrc_latest_month_id
                      else Inr (now\<lparr>dt_day := 1\<rparr>)) of
                  Inl e \<Rightarrow> Inl e
                | Inr end_dt \<Rightarrow>
                    (case strptime_Y_b lcu_month_id of
                       Inl e \<Rightarrow> Inl e
                     | Inr start \<Rightarrow>
                         let start = (if dt_less end_dt start then end_dt else start)
                         in month_loop end_dt max_months (dt_year start) (dt_month start) []))"

subsection \<open>The calendar as a line of months\<close>

text \<open>
  Months counted on one line: month \<open>m\<close> of year \<open>y\<close> has index \<open>12 * y + m - 1\<close>, so that
  consecutive calendar months have consecutive indices. \<open>month_id_at\<close> is the identifier of
  the month with a given index.
\<close>

definition month_index :: "datetime \<Rightarrow> int" where
  "month_index d = 12 * dt_year d + dt_month d - 1"

definition month_id_at :: "int \<Rightarrow> string" where
  "month_id_at i =
     strftime_Y_b \<lparr> dt_year = i div 12, dt_month = i mod 12 + 1, dt_day = 1, dt_time = 0 \<rparr>"

definition scenario_baseline :: "string \<Rightarrow> string \<Rightarrow> Baseline" where
  "scenario_baseline lcu latest =
     \<lparr> IsAdmin = Some True, LcuMonthId = Some lcu, MsrcLatestMonthId = Some latest,
       OsName = Some ''Microsoft Windows 11 Pro'', DisplayVersion = Some ''23H2'',
       Architecture = Some ''64-bit'', Build = Some ''22631.2428'' \<rparr>"

definition scenario_now :: datetime where
  "scenario_now = \<lparr> dt_year = 2026, dt_month = 11, dt_day = 4, dt_time = 0 \<rparr>"

text \<open>The class of the exception a call ended with, if it raised.\<close>

definition raised_class :: "py_error + 'a \<Rightarrow> string option" where
  "raised_class r = (case r of Inl e \<Rightarrow> Some (exception_class e) | Inr v \<Rightarrow> None)"

section \<open>The scanner: bulletin merge index\<close>

text \<open>
  A KB entry as the adapter returns it and as \<open>compute_supersedence\<close> reads it: a
  dictionary whose keys may be missing or null (\<open>None\<close>).
\<close>

record kb_entry =
  KB :: "string option"
  Months :: "string list option"
  Cves :: "string list option"
  Supersedes :: "string list option"

text \<open>
  An entry of the merged index, as \<open>merge_kb_entries\<close> creates it: the four keys are always
  there; \<open>UpdateType\<close> is added by the normalisation pass of \<open>main\<close>.
\<close>

record kb_record =
  rec_KB :: string
  rec_Months :: "string list"
  rec_Cves :: "string list"
  rec_Supersedes :: "string list"
  rec_UpdateType :: "string option"

text \<open>The index is a dictionary from identifier to entry, in insertion order.\<close>

type_synonym kb_index = "(string \<times> kb_record) list"

text \<open>\<open>entry.get(key) or []\<close> for a list field.\<close>

definition get_list :: "string list option \<Rightarrow> string list" where
  "get_list v = (case v of None \<Rightarrow> [] | Some xs \<Rightarrow> xs)"

text \<open>
  Each of the three inner loops of \<open>merge_kb_entries\<close>: an incoming item that is not empty
  and not yet in the target list is appended to it.
\<close>

fun merge_items :: "string list \<Rightarrow> string list \<Rightarrow> string list" where
  "merge_items target [] = target"
| "merge_items target (x # xs) =
     merge_items (if x \<noteq> [] \<and> x \<notin> set target then target @ [x] else target) xs"

text \<open>The body of the outer loop, for one incoming entry.\<close>

definition merge_kb_entry :: "kb_index \<Rightarrow> kb_entry \<Rightarrow> kb_index" where
  "merge_kb_entry existing entry =
     (let kb_id = get_str (KB entry)
      in if kb_id = [] then existing
         else
           let existing =
                 (if map_of existing kb_id = None
                  then existing @ [(kb_id, \<lparr> rec_KB = kb_id, rec_Months = [], rec_Cves = [],
                                            rec_Supersedes = [], rec_UpdateType = None \<rparr>)]
                  else existing);
               existing = AList.map_entry kb_id
                 (\<lambda>r. r\<lparr>rec_Months := merge_items (rec_Months r) (get_list (Months entry))\<rparr>)
                 existing;
               existing = AList.map_entry kb_id
                 (\<lambda>r. r\<lparr>rec_Cves := merge_items (rec_Cves r) (get_list (Cves entry))\<rparr>)
                 existing;
               existing = AList.map_entry kb_id
                 (\<lambda>r. r\<lparr>rec_Supersedes :=
                          merge_items (rec_Supersedes r) (get_list (Supersedes entry))\<rparr>)
                 existing
           in existing)"

text \<open>\<open>merge_kb_entries\<close> mutates the index in place; the model returns the new index.\<close>

fun merge_kb_entries :: "kb_index \<Rightarrow> kb_entry list \<Rightarrow> kb_index" where
  "merge_kb_entries existing [] = existing"
| "merge_kb_entries existing (entry # incoming) =
     merge_kb_entries (merge_kb_entry existing entry) incoming"

text \<open>
  The normalisation pass of \<open>main\<close>: every collection becomes \<open>sorted(set(...))\<close>, then
  \<open>UpdateType\<close> is set from the normalised \<open>Supersedes\<close>.
\<close>

definition normalise_record :: "kb_record \<Rightarrow> kb_record" where
  "normalise_record e =
     (let e = e\<lparr>rec_Months := sort (remdups (rec_Months e))\<rparr>;
          e = e\<lparr>rec_Cves := sort (remdups (rec_Cves e))\<rparr>;
          e = e\<lparr>rec_Supersedes := sort (remdups (rec_Supersedes e))\<rparr>
      in e\<lparr>rec_UpdateType :=
             Some (if rec_Supersedes e \<noteq> [] then ''Superseding'' else ''Standalone'')\<rparr>)"

definition normalise_index :: "kb_index \<Rightarrow> kb_index" where
  "normalise_index index = map (\<lambda>(kb_id, e). (kb_id, normalise_record e)) index"

text \<open>
  An incoming entry is absorbed by an index when merging it would add nothing: it has no
  identifier, or the index has its identifier and every non-empty item of its three lists.
\<close>

definition absorbed :: "kb_entry \<Rightarrow> kb_index \<Rightarrow> bool" where
  "absorbed entry index =
     (get_str (KB entry) = []
      \<or> (case map_of index (get_str (KB entry)) of
            None \<Rightarrow> False
          | Some r \<Rightarrow>
              list_all (\<lambda>x. x = [] \<or> x \<in> set (rec_Months r)) (get_list (Months entry))
              \<and> list_all (\<lambda>x. x = [] \<or> x \<in> set (rec_Cves r)) (get_list (Cves entry))
              \<and> list_all (\<lambda>x. x = [] \<or> x \<in> set (rec_Supersedes r))
                   (get_list (Supersedes entry))))"

definition scenario_incoming :: "kb_entry list" where
  "scenario_incoming =
     [\<lparr> KB = Some ''KB5031354'', Months = Some [''2023-Oct'', ''2023-Oct'', ''''],
        Cves = Some [''CVE-2023-36563'', ''CVE-2023-35349''],
        Supersedes = Some [''KB5030219''] \<rparr>,
      \<lparr> KB = None, Months = Some [''2023-Oct''], Cves = None, Supersedes = None \<rparr>,
      \<lparr> KB = Some ''KB5030219'', Months = Some [''2023-Sep''], Cves = None,
        Supersedes = Some [] \<rparr>,
      \<lparr> KB = Some ''KB5031354'', Months = Some [''2023-Nov'', ''2023-Oct''],
        Cves = Some [''CVE-2023-35349''], Supersedes = Some [''KB5029351'', ''KB5030219''] \<rparr>]"

section \<open>The scanner: supersedence expansion\<close>

text \<open>
  A Python set of strings is modelled as a list without duplicates, in the order in which
  the items were added; \<open>s.add(x)\<close> appends \<open>x\<close> unless it is there already, and
  \<open>set(xs)\<close> drops repeated items. The program never depends on the order in which it
  iterates over a set: the theorems below speak of the items only. A dictionary from
  strings to sets is an association list in insertion order.
\<close>

definition set_add :: "string \<Rightarrow> string list \<Rightarrow> string list" where
  "set_add x s = (if x \<in> set s then s else s @ [x])"

type_synonym set_dict = "(string \<times> string list) list"

text \<open>\<open>d.get(k, set())\<close>.\<close>

definition get_set :: "set_dict \<Rightarrow> string \<Rightarrow> string list" where
  "get_set d k = (case map_of d k of None \<Rightarrow> [] | Some s \<Rightarrow> s)"

text \<open>\<open>d.setdefault(k, set()).add(x)\<close>.\<close>

definition setdefault_add :: "string \<Rightarrow> string \<Rightarrow> set_dict \<Rightarrow> set_dict" where
  "setdefault_add k x d = AList.update k (set_add x (get_set d k)) d"

text \<open>The first loop of \<open>compute_supersedence\<close>, which fills \<open>supersedes_map\<close>.\<close>

fun build_supersedes_map :: "set_dict \<Rightarrow> kb_entry list \<Rightarrow> set_dict" where
  "build_supersedes_map supersedes_map [] = supersedes_map"
| "build_supersedes_map supersedes_map (entry # kb_entries) =
     (let kb_id = get_str (KB entry)
      in if kb_id = [] then build_supersedes_map supersedes_map kb_entries
         else build_supersedes_map
                (fold (\<lambda>old. setdefault_add kb_id old) (get_list (Supersedes entry))
                   supersedes_map)
                kb_entries)"

text \<open>
  The state of the traversal from one root: \<open>logical_present\<close>, \<open>superseded_by\<close>, \<open>seen\<close>
  and \<open>stack\<close>. The stack grows and shrinks at its end, as a Python list does. Since
  \<open>seen.add(old)\<close> and \<open>stack.append(old)\<close> are executed together, and both start as
  the root alone, the list \<open>seen\<close> is the record of everything pushed onto the stack, in
  the order of the pushes.
\<close>

type_synonym traversal = "string list \<times> set_dict \<times> string list \<times> string list"

text \<open>The \<open>for old in ...\<close> loop, for the identifiers superseded by the popped one.\<close>

fun visit_olds :: "string \<Rightarrow> string list \<Rightarrow> traversal \<Rightarrow> traversal" where
  "visit_olds root_installed [] state = state"
| "visit_olds root_installed (old # olds) (logical_present, superseded_by, seen, stack) =
     (let logical_present = set_add old logical_present;
          superseded_by = setdefault_add old root_installed superseded_by
      in if old \<notin> set seen
         then visit_olds root_installed olds
                (logical_present, superseded_by, seen @ [old], stack @ [old])
         else visit_olds root_installed olds (logical_present, superseded_by, seen, stack))"

text \<open>The \<open>while stack\<close> loop. The result is \<open>None\<close> if the loop does not end.\<close>

partial_function (option) traverse :: "set_dict \<Rightarrow> string \<Rightarrow> traversal \<Rightarrow> traversal option" where
  "traverse supersedes_map root_installed state =
     (case state of
        (logical_present, superseded_by, seen, stack) \<Rightarrow>
          if stack = [] then Some state
          else
            let current = last stack;
                stack = butlast stack
            in traverse supersedes_map root_installed
                 (visit_olds root_installed (get_set supersedes_map current)
                    (logical_present, superseded_by, seen, stack)))"

declare traverse.simps [code]

text \<open>The \<open>for root_installed in installed_kbs\<close> loop.\<close>

fun expand_roots ::
  "set_dict \<Rightarrow> string list \<Rightarrow> string list \<times> set_dict \<Rightarrow> (string list \<times> set_dict) option" where
  "expand_roots supersedes_map [] (logical_present, superseded_by) =
     Some (logical_present, superseded_by)"
| "expand_roots supersedes_map (root_installed # roots) (logical_present, superseded_by) =
     (case traverse supersedes_map root_installed
             (logical_present, superseded_by, [root_installed], [root_installed]) of
        None \<Rightarrow> None
      | Some (logical_present, superseded_by, seen, stack) \<Rightarrow>
          expand_roots supersedes_map roots (logical_present, superseded_by))"

text \<open>
  \<open>compute_supersedence\<close>: the logically-present set and the superseded-by dictionary with
  its values sorted, or \<open>None\<close> if a traversal does not end.
\<close>

definition compute_supersedence ::
  "kb_entry list \<Rightarrow> string list \<Rightarrow> (string list \<times> set_dict) option" where
  "compute_supersedence kb_entries installed_kbs =
     (let supersedes_map = build_supersedes_map [] kb_entries
      in case expand_roots supersedes_map installed_kbs (remdups installed_kbs, []) of
           None \<Rightarrow> None
         | Some (logical_present, superseded_by) \<Rightarrow>
             Some (logical_present, map (\<lambda>(k, v). (k, sort v)) superseded_by))"

subsection \<open>The supersedes relation\<close>

text \<open>
  The relation newer to older that the entries state: an entry with a non-empty identifier
  relates it to every item of its \<open>Supersedes\<close> list.
\<close>

definition supersedes_relation :: "kb_entry list \<Rightarrow> (string \<times> string) set" where
  "supersedes_relation kb_entries =
     {(kb_id, old). \<exists>entry \<in> set kb_entries.
        get_str (KB entry) = kb_id \<and> kb_id \<noteq> [] \<and> old \<in> set (get_list (Supersedes entry))}"

text \<open>The edges of a dictionary of sets, and what is left unseen of its values.\<close>

definition edges :: "set_dict \<Rightarrow> (string \<times> string) set" where
  "edges d = {(k, x). x \<in> set (get_set d k)}"

definition unseen :: "set_dict \<Rightarrow> string list \<Rightarrow> nat" where
  "unseen d seen = length (filter (\<lambda>x. x \<notin> set seen) (remdups (concat (map snd d))))"

text \<open>A well-formed dictionary of sets: distinct keys, and every value a non-empty list
  without duplicates.\<close>

definition wf_dict :: "set_dict \<Rightarrow> bool" where
  "wf_dict d = (distinct (map fst d) \<and> (\<forall>(k, v) \<in> set d. distinct v \<and> v \<noteq> []))"

text \<open>
  The invariant of the traversal from \<open>root\<close> over the relation \<open>E\<close>, started with
  \<open>logical_present = lp0\<close> and \<open>superseded_by = sb0\<close>. The identifiers seen and no longer
  on the stack are the ones already expanded: all they supersede is seen, is logically
  present and is attributed to the root.
\<close>

definition traversal_inv ::
  "(string \<times> string) set \<Rightarrow> string \<Rightarrow> string list \<Rightarrow> set_dict \<Rightarrow> traversal \<Rightarrow> bool" where
  "traversal_inv E root lp0 sb0 state =
     (case state of
        (logical_present, superseded_by, seen, stack) \<Rightarrow>
          root \<in> set seen \<and> set stack \<subseteq> set seen \<and> distinct stack \<and> distinct seen
          \<and> (\<forall>x \<in> set seen. (root, x) \<in> E\<^sup>*)
          \<and> (\<forall>x \<in> set seen - set stack. E `` {x} \<subseteq> set seen)
          \<and> set logical_present = set lp0 \<union> E `` (set seen - set stack)
          \<and> edges superseded_by = edges sb0 \<union> E `` (set seen - set stack) \<times> {root}
          \<and> wf_dict superseded_by \<and> distinct logical_present)"

definition scenario_kb_entries :: "kb_entry list" where
  "scenario_kb_entries =
     [\<lparr> KB = Some ''KB5031354'', Months = Some [''2023-Oct''], Cves = Some [],
        Supersedes = Some [''KB5029351''] \<rparr>,
      \<lparr> KB = Some ''KB5029351'', Months = Some [''2023-Aug''], Cves = Some [],
        Supersedes = Some [''KB5026372''] \<rparr>,
      \<lparr> KB = Some ''KB5026372'', Months = Some [''2023-May''], Cves = Some [],
        Supersedes = Some [] \<rparr>]"

definition cyclic_kb_entries :: "kb_entry list" where
  "cyclic_kb_entries =
     [\<lparr> KB = Some ''KB1'', Months = None, Cves = None, Supersedes = Some [''KB2'', ''KB3''] \<rparr>,
      \<lparr> KB = Some ''KB2'', Months = None, Cves = None, Supersedes = Some [''KB3'', ''KB1''] \<rparr>,
      \<lparr> KB = Some ''KB3'', Months = None, Cves = None, Supersedes = Some [''KB3'', ''KB2''] \<rparr>,
      \<lparr> KB = Some ''KB4'', Months = None, Cves = None, Supersedes = Some [''KB1''] \<rparr>]"


section \<open>Proofs\<close>

lemma score_candidate_blocks:
  "score_candidate candidate kb_id c =
     (if \<not> str_in (lower kb_id) (lower (title candidate)) then - 10000
      else if windows_gen c \<noteq> [] \<and> windows_gen c = ''windows 10''
              \<and> str_in ''windows 11'' (lower (title candidate))
      then - 10000
      else if windows_gen c \<noteq> [] \<and> windows_gen c = ''windows 11''
              \<and> str_in ''windows 10'' (lower (title candidate))
      then - 10000
      else if startswith ''windows '' (windows_gen c) \<and> str_in ''server'' (lower (title candidate))
      then - 10000
      else case architecture_rule c (lower (title candidate))
                  (generation_points c (lower (title candidate)) (0 + 50)) of
             None \<Rightarrow> - 10000
           | Some score \<Rightarrow> version_build_points c (lower (title candidate)) score)"
  unfolding score_candidate_def architecture_rule_def generation_points_def
    version_build_points_def Let_def
  by (rule refl)

lemma version_build_points_range:
  "s - 20 \<le> version_build_points c t s \<and> version_build_points c t s \<le> s + 35"
  by (simp add: version_build_points_def Let_def split: option.split)

lemma architecture_rule_cases:
  "architecture_rule c t s = None \<or> architecture_rule c t s = Some s
     \<or> architecture_rule c t s = Some (s + 25)"
  by (simp add: architecture_rule_def)

lemma generation_points_cases:
  "generation_points c t s = s \<or> generation_points c t s = s + 40"
  by (simp add: generation_points_def)

lemma score_cases:
  "score_candidate cand kb c = - 10000 \<or> (30 \<le> score_candidate cand kb c \<and> score_candidate cand kb c \<le> 150)"
proof -
  let ?t = "lower (title cand)"
  let ?g = "generation_points c ?t (0 + 50)"
  have g: "?g = 50 \<or> ?g = 90"
    using generation_points_cases [of c ?t "0 + 50"] by simp
  have v: "?g - 20 \<le> version_build_points c ?t ?g \<and> version_build_points c ?t ?g \<le> ?g + 35"
    by (rule version_build_points_range)
  have v': "?g + 25 - 20 \<le> version_build_points c ?t (?g + 25)
            \<and> version_build_points c ?t (?g + 25) \<le> ?g + 25 + 35"
    by (rule version_build_points_range)
  from architecture_rule_cases [of c ?t ?g] show ?thesis
  proof (elim disjE)
    assume "architecture_rule c ?t ?g = None"
    then show ?thesis by (simp add: score_candidate_blocks)
  next
    assume "architecture_rule c ?t ?g = Some ?g"
    then show ?thesis using g v by (auto simp add: score_candidate_blocks)
  next
    assume "architecture_rule c ?t ?g = Some (?g + 25)"
    then show ?thesis using g v' by (auto simp add: score_candidate_blocks)
  qed
qed

lemma find_filter: "find P xs = (case filter P xs of [] \<Rightarrow> None | x # _ \<Rightarrow> Some x)"
  by (induction xs) auto

lemma sort_key_head:
  assumes "xs \<noteq> []"
  shows "\<exists>y ys. sort_key f xs = y # ys \<and> y \<in> set xs \<and> (\<forall>x\<in>set xs. f y \<le> f x)
           \<and> find (\<lambda>x. f x = f y) xs = Some y"
proof -
  from assms have "sort_key f xs \<noteq> []"
    by (metis length_0_conv length_sort)
  then obtain y ys where s: "sort_key f xs = y # ys"
    by (cases "sort_key f xs") auto
  have yin: "y \<in> set xs"
    by (metis s list.set_intros(1) set_sort)
  have srt: "sorted (map f (y # ys))"
    using sorted_sort_key [of f xs] s by simp
  have mn: "\<forall>x\<in>set xs. f y \<le> f x"
  proof
    fix x assume "x \<in> set xs"
    then have "x \<in> set (y # ys)" by (metis s set_sort)
    with srt show "f y \<le> f x" by auto
  qed
  have "filter (\<lambda>x. f x = f y) (y # ys) = filter (\<lambda>x. f x = f y) xs"
    using sort_key_stable [of f "f y" xs] s by simp
  then have "filter (\<lambda>x. f x = f y) xs = y # filter (\<lambda>x. f x = f y) ys"
    by simp
  then have "find (\<lambda>x. f x = f y) xs = Some y"
    by (simp add: find_filter)
  with s yin mn show ?thesis by blast
qed

lemma find_map_snd:
  "find (\<lambda>x. fst x = k) (filter (\<lambda>(s, cand). 0 \<le> s) (map (\<lambda>cand. (f cand, cand)) xs)) = Some (k', y)
   \<Longrightarrow> 0 \<le> k \<Longrightarrow> find (\<lambda>cand. f cand = k) xs = Some y \<and> k' = k"
  by (induction xs) (auto split: if_splits)

lemma choose_best_candidate_cases:
  fixes candidates kb_id c
  defines "score \<equiv> \<lambda>cand. score_candidate cand kb_id c"
  defines "kept \<equiv> filter (\<lambda>cand. 0 \<le> score cand) candidates"
  defines "best \<equiv> Max (score ` set kept)"
  shows "choose_best_candidate candidates kb_id c =
           (if kept = [] then (None, Some no_match_message)
            else if best < 90 then (None, Some (ambiguous_message best))
            else (find (\<lambda>cand. score cand = best) candidates, None))"
    and "kept \<noteq> [] \<Longrightarrow> \<exists>cand. find (\<lambda>cand. score cand = best) candidates = Some cand
             \<and> cand \<in> set candidates \<and> score cand = best"
proof -
  let ?scored = "filter (\<lambda>(s, cand). 0 \<le> s) (map (\<lambda>cand. (score cand, cand)) candidates)"
  have scored_eq: "?scored = map (\<lambda>cand. (score cand, cand)) kept"
    unfolding kept_def by (induction candidates) auto
  have A: "kept \<noteq> [] \<Longrightarrow> \<exists>cand. sort_key (\<lambda>x. - fst x) ?scored = (best, cand) # tl (sort_key (\<lambda>x. - fst x) ?scored)
             \<and> find (\<lambda>cand. score cand = best) candidates = Some cand
             \<and> cand \<in> set candidates \<and> score cand = best"
  proof -
    assume ne: "kept \<noteq> []"
    then have "?scored \<noteq> []" by (simp add: scored_eq)
    from sort_key_head [OF this, of "\<lambda>x. - fst x"]
    obtain y ys where s: "sort_key (\<lambda>x. - fst x) ?scored = y # ys"
      and yin: "y \<in> set ?scored"
      and mn: "\<forall>x\<in>set ?scored. - fst y \<le> - fst x"
      and fnd: "find (\<lambda>x. - fst x = - fst y) ?scored = Some y"
      by blast
    obtain b cand where y: "y = (b, cand)" by (cases y)
    from yin y have b: "b = score cand" and candk: "cand \<in> set kept"
      by (auto simp: scored_eq)
    have fin: "finite (score ` set kept)" by simp
    have "b \<in> score ` set kept" using b candk by blast
    moreover have "\<forall>v\<in>score ` set kept. v \<le> b"
      using mn y by (auto simp: scored_eq)
    ultimately have bb: "best = b"
      unfolding best_def using fin by (meson Max_eqI)
    have b0: "0 \<le> b" using candk b by (simp add: kept_def)
    have "find (\<lambda>x. fst x = b) ?scored = Some (b, cand)"
      using fnd y by simp
    from find_map_snd [OF this b0] have f2: "find (\<lambda>cand. score cand = b) candidates = Some cand"
      by simp
    have "cand \<in> set candidates" using candk by (simp add: kept_def)
    with s y bb f2 b show ?thesis by simp
  qed
  show "kept \<noteq> [] \<Longrightarrow> \<exists>cand. find (\<lambda>cand. score cand = best) candidates = Some cand
             \<and> cand \<in> set candidates \<and> score cand = best"
    using A by blast
  show "choose_best_candidate candidates kb_id c =
           (if kept = [] then (None, Some no_match_message)
            else if best < 90 then (None, Some (ambiguous_message best))
            else (find (\<lambda>cand. score cand = best) candidates, None))"
  proof (cases "kept = []")
    case True
    then have "?scored = []" by (simp add: scored_eq)
    then show ?thesis
      using True unfolding choose_best_candidate_def Let_def score_def by simp
  next
    case False
    then have ne: "?scored \<noteq> []" by (simp add: scored_eq)
    from A [OF False] obtain cand where
      s: "sort_key (\<lambda>x. - fst x) ?scored = (best, cand) # tl (sort_key (\<lambda>x. - fst x) ?scored)"
      and f: "find (\<lambda>cand. score cand = best) candidates = Some cand"
      by blast
    have "choose_best_candidate candidates kb_id c =
            (case sort_key (\<lambda>x. - fst x) ?scored of
              (best_score, best) # _ \<Rightarrow>
                if best_score < 90 then (None, Some (ambiguous_message best_score))
                else (Some best, None)
            | [] \<Rightarrow> (None, Some no_match_message))"
      using ne unfolding choose_best_candidate_def Let_def score_def by simp
    also have "\<dots> = (if best < 90 then (None, Some (ambiguous_message best)) else (Some cand, None))"
      by (subst s) simp
    finally show ?thesis using False f by simp
  qed
qed

lemma score_title_x64: "score_candidate (titled title_x64) ''KB5031354'' scenario_constraints = 140"
  by code_simp
lemma score_title_arm64: "score_candidate (titled title_arm64) ''KB5031354'' scenario_constraints = - 10000"
  by code_simp
lemma score_title_plain: "score_candidate (titled title_plain) ''KB5031354'' scenario_constraints = 115"
  by code_simp
lemma score_title_bare: "score_candidate (titled ''kb5031354'') ''KB5031354'' scenario_constraints = 50"
  by code_simp

text \<open>
  Claim C1. \<open>choose_best_candidate\<close> scores every candidate and keeps those with a
  non-negative score. When none is kept it reports the no-match rejection. Otherwise, with
  \<open>best\<close> the highest kept score: when \<open>best\<close> is at most 89 it reports the
  ambiguous-match rejection, and when \<open>best\<close> is at least 90 it selects the first
  candidate in input order whose score is \<open>best\<close>. A selected candidate is always one
  of the inputs and scores at least 90.
\<close>

theorem choose_best_candidate_threshold:
  "let score = (\<lambda>cand. score_candidate cand kb_id c);
       kept = filter (\<lambda>cand. 0 \<le> score cand) candidates;
       best = Max (score ` set kept);
       result = choose_best_candidate candidates kb_id c
   in (kept = [] \<longrightarrow> result = (None, Some no_match_message))
    \<and> (kept \<noteq> [] \<and> best \<le> 89 \<longrightarrow> result = (None, Some (ambiguous_message best)))
    \<and> (kept \<noteq> [] \<and> 90 \<le> best \<longrightarrow>
         (\<exists>cand. result = (Some cand, None)
                \<and> find (\<lambda>x. score x = best) candidates = Some cand))
    \<and> (\<forall>cand. fst result = Some cand \<longrightarrow> cand \<in> set candidates \<and> 90 \<le> score cand)"
proof -
  let ?score = "\<lambda>cand. score_candidate cand kb_id c"
  let ?kept = "filter (\<lambda>cand. 0 \<le> ?score cand) candidates"
  let ?best = "Max (?score ` set ?kept)"
  note eq = choose_best_candidate_cases(1) [of candidates kb_id c]
  note ex = choose_best_candidate_cases(2) [of kb_id c candidates]
  have 1: "?kept = [] \<longrightarrow> choose_best_candidate candidates kb_id c = (None, Some no_match_message)"
    using eq by simp
  have 2: "?kept \<noteq> [] \<and> ?best \<le> 89 \<longrightarrow>
             choose_best_candidate candidates kb_id c = (None, Some (ambiguous_message ?best))"
    using eq by simp
  have 3: "?kept \<noteq> [] \<and> 90 \<le> ?best \<longrightarrow>
         (\<exists>cand. choose_best_candidate candidates kb_id c = (Some cand, None)
                \<and> find (\<lambda>x. ?score x = ?best) candidates = Some cand)"
    using eq ex by auto
  have 4: "\<forall>cand. fst (choose_best_candidate candidates kb_id c) = Some cand
             \<longrightarrow> cand \<in> set candidates \<and> 90 \<le> ?score cand"
  proof (intro allI impI)
    fix cand assume sel: "fst (choose_best_candidate candidates kb_id c) = Some cand"
    then have ne: "?kept \<noteq> []" and b: "\<not> ?best < 90"
      using eq by (auto split: if_splits)
    from ex [OF ne] obtain cand' where
      f: "find (\<lambda>x. ?score x = ?best) candidates = Some cand'"
      and m: "cand' \<in> set candidates" and sc: "?score cand' = ?best" by blast
    from sel eq ne b f have "cand = cand'" by simp
    with m sc b show "cand \<in> set candidates \<and> 90 \<le> ?score cand" by simp
  qed
  show ?thesis unfolding Let_def using 1 2 3 4 by blast
qed

theorem choose_best_candidate_threshold_witness:
  "choose_best_candidate [titled title_plain, titled title_arm64, titled title_x64, titled title_x64]
       ''KB5031354'' scenario_constraints = (Some (titled title_x64), None)
   \<and> choose_best_candidate [titled title_arm64, titled ''kb5031354''] ''KB5031354'' scenario_constraints
       = (None, Some (ambiguous_message 50))
   \<and> choose_best_candidate [titled title_arm64] ''KB5031354'' scenario_constraints
       = (None, Some no_match_message)"
proof -
  note s = score_title_x64 score_title_arm64 score_title_plain score_title_bare
  have a: "choose_best_candidate [titled title_plain, titled title_arm64, titled title_x64, titled title_x64]
       ''KB5031354'' scenario_constraints = (Some (titled title_x64), None)"
    using choose_best_candidate_threshold
      [of "''KB5031354''" scenario_constraints
          "[titled title_plain, titled title_arm64, titled title_x64, titled title_x64]"]
    by (simp add: Let_def s)
  have b: "choose_best_candidate [titled title_arm64, titled ''kb5031354''] ''KB5031354'' scenario_constraints
       = (None, Some (ambiguous_message 50))"
    using choose_best_candidate_threshold
      [of "''KB5031354''" scenario_constraints "[titled title_arm64, titled ''kb5031354'']"]
    by (simp add: Let_def s)
  have c: "choose_best_candidate [titled title_arm64] ''KB5031354'' scenario_constraints
       = (None, Some no_match_message)"
    using choose_best_candidate_threshold
      [of "''KB5031354''" scenario_constraints "[titled title_arm64]"]
    by (simp add: Let_def s)
  from a b c show ?thesis by simp
qed

text \<open>
  Claim C9. A score is either the hard-reject value \<open>- 10000\<close> or lies between 30 and
  150; so a score is negative exactly when it is the hard-reject value, and the selector's
  filter on non-negative scores removes exactly the hard-rejected candidates.
\<close>

theorem score_candidate_range:
  "(score_candidate cand kb_id c = - 10000
      \<or> (30 \<le> score_candidate cand kb_id c \<and> score_candidate cand kb_id c \<le> 150))
   \<and> (score_candidate cand kb_id c < 0) = (score_candidate cand kb_id c = - 10000)
   \<and> filter (\<lambda>x. 0 \<le> score_candidate x kb_id c) candidates
       = filter (\<lambda>x. score_candidate x kb_id c \<noteq> - 10000) candidates"
proof -
  have r: "score_candidate x kb_id c = - 10000
      \<or> (30 \<le> score_candidate x kb_id c \<and> score_candidate x kb_id c \<le> 150)" for x
    by (rule score_cases)
  have n: "(score_candidate x kb_id c < 0) = (score_candidate x kb_id c = - 10000)" for x
    using r [of x] by auto
  have "(0 \<le> score_candidate x kb_id c) = (score_candidate x kb_id c \<noteq> - 10000)" for x
    using n [of x] by auto
  then have "filter (\<lambda>x. 0 \<le> score_candidate x kb_id c) candidates
       = filter (\<lambda>x. score_candidate x kb_id c \<noteq> - 10000) candidates"
    by simp
  with r n show ?thesis by blast
qed

text \<open>
  Claim C10. When the lower-cased \<open>Architecture\<close> field (empty when the field is
  missing) is none of \<open>x64\<close>, \<open>amd64\<close>, \<open>x86\<close>, \<open>32-bit\<close> and does not contain
  \<open>arm64\<close>, \<open>build_constraints\<close> sets the catalog architecture to \<open>x64\<close>.
\<close>

theorem build_constraints_unknown_architecture:
  assumes "lower (get_str (Architecture baseline)) \<notin> {''x64'', ''amd64'', ''x86'', ''32-bit''}"
      and "\<not> str_in ''arm64'' (lower (get_str (Architecture baseline)))"
  shows "catalog_arch (build_constraints baseline) = ''x64''"
  using assms by (simp add: build_constraints_def Let_def)

theorem build_constraints_unknown_architecture_witness:
  "catalog_arch (build_constraints \<lparr> IsAdmin = Some True, LcuMonthId = None, MsrcLatestMonthId = None,
       OsName = Some ''Microsoft Windows 11 Pro'', DisplayVersion = Some ''23H2'',
       Architecture = None, Build = Some ''22631.2428'' \<rparr>) = ''x64''
   \<and> catalog_arch (build_constraints \<lparr> IsAdmin = Some True, LcuMonthId = None, MsrcLatestMonthId = None,
       OsName = Some ''Microsoft Windows 11 Pro'', DisplayVersion = Some ''23H2'',
       Architecture = Some ''IA64'', Build = Some ''22631.2428'' \<rparr>) = ''x64''"
proof -
  have l: "lower ''IA64'' = ''ia64''" by code_simp
  have n: "\<not> str_in ''arm64'' ''ia64''" by code_simp
  show ?thesis
    using build_constraints_unknown_architecture
      [of "\<lparr> IsAdmin = Some True, LcuMonthId = None, MsrcLatestMonthId = None,
       OsName = Some ''Microsoft Windows 11 Pro'', DisplayVersion = Some ''23H2'',
       Architecture = None, Build = Some ''22631.2428'' \<rparr>"]
      build_constraints_unknown_architecture
      [of "\<lparr> IsAdmin = Some True, LcuMonthId = None, MsrcLatestMonthId = None,
       OsName = Some ''Microsoft Windows 11 Pro'', DisplayVersion = Some ''23H2'',
       Architecture = Some ''IA64'', Build = Some ''22631.2428'' \<rparr>"]
    by (simp add: get_str_def l n lower_def)
qed

lemma architecture_rule_other:
  assumes "catalog_arch c \<in> {''x64'', ''arm64'', ''x86''}"
      and "a \<in> {''x64'', ''arm64'', ''x86''}" and "a \<noteq> catalog_arch c" and "names_arch a t"
  shows "architecture_rule c t s = None"
  using assms by (auto simp: architecture_rule_def names_arch_def arch_markers_def)

lemma architecture_rule_own:
  assumes "catalog_arch c \<in> {''x64'', ''arm64'', ''x86''}"
  shows "architecture_rule c t s =
           (if \<exists>a\<in>{''x64'', ''arm64'', ''x86''}. a \<noteq> catalog_arch c \<and> names_arch a t then None
            else if names_arch (catalog_arch c) t then Some (s + 25) else Some s)"
  using assms by (auto simp: architecture_rule_def names_arch_def arch_markers_def)

text \<open>
  Claim C3. For a title that contains the identifier token and a baseline architecture that
  is one of the three families: a title naming a marker of another family scores
  \<open>- 10000\<close>; and when a title that is not hard-rejected and lacks the baseline's own
  marker is changed into one that has it, every other test of the scorer answering as
  before, the score grows by exactly 25.
\<close>

theorem score_candidate_architecture:
  assumes kb: "str_in (lower kb_id) (lower (title cand))"
      and arch: "catalog_arch c \<in> {''x64'', ''arm64'', ''x86''}"
  shows "(\<forall>a\<in>{''x64'', ''arm64'', ''x86''}.
            a \<noteq> catalog_arch c \<and> names_arch a (lower (title cand))
            \<longrightarrow> score_candidate cand kb_id c = - 10000)
       \<and> (\<forall>cand'.
            score_candidate cand kb_id c \<noteq> - 10000
            \<and> \<not> names_arch (catalog_arch c) (lower (title cand))
            \<and> names_arch (catalog_arch c) (lower (title cand'))
            \<and> same_other_signals kb_id c (lower (title cand)) (lower (title cand'))
            \<longrightarrow> score_candidate cand' kb_id c = score_candidate cand kb_id c + 25
                \<and> score_candidate cand kb_id c < score_candidate cand' kb_id c)"
proof (rule conjI; intro ballI allI impI)
  fix a assume a: "a \<in> {''x64'', ''arm64'', ''x86''}"
    and h: "a \<noteq> catalog_arch c \<and> names_arch a (lower (title cand))"
  have "architecture_rule c (lower (title cand)) s = None" for s
    using architecture_rule_other [OF arch a] h by blast
  then show "score_candidate cand kb_id c = - 10000"
    by (simp add: score_candidate_blocks)
next
  fix cand' :: CatalogCandidate
  let ?t = "lower (title cand)" and ?t' = "lower (title cand')"
  assume h: "score_candidate cand kb_id c \<noteq> - 10000
            \<and> \<not> names_arch (catalog_arch c) ?t
            \<and> names_arch (catalog_arch c) ?t'
            \<and> same_other_signals kb_id c ?t ?t'"
  then have same: "same_other_signals kb_id c ?t ?t'" and own: "names_arch (catalog_arch c) ?t'"
    and lacked: "\<not> names_arch (catalog_arch c) ?t" and ok: "score_candidate cand kb_id c \<noteq> - 10000"
    by blast+
  from same have p: "str_in (lower kb_id) ?t' = str_in (lower kb_id) ?t"
      "str_in (windows_gen c) ?t' = str_in (windows_gen c) ?t"
      "str_in ''windows 10'' ?t' = str_in ''windows 10'' ?t"
      "str_in ''windows 11'' ?t' = str_in ''windows 11'' ?t"
      "str_in ''server'' ?t' = str_in ''server'' ?t"
    and dv: "str_in (strip (lower (display_version c))) ?t'
               = str_in (strip (lower (display_version c))) ?t"
    and hy: "search_half_year ?t' = search_half_year ?t"
    and sb: "search_build ?t' = search_build ?t"
    and oth: "\<forall>a\<in>{''x64'', ''arm64'', ''x86''}. a = catalog_arch c \<or> names_arch a ?t' = names_arch a ?t"
    by (simp_all add: same_other_signals_def)
  have g: "generation_points c ?t' s = generation_points c ?t s" for s
    by (simp add: generation_points_def p)
  have v: "version_build_points c ?t' s = version_build_points c ?t s" for s
    by (simp add: version_build_points_def Let_def dv hy sb)
  let ?g = "generation_points c ?t (0 + 50)"
  have rej: "(\<exists>a\<in>{''x64'', ''arm64'', ''x86''}. a \<noteq> catalog_arch c \<and> names_arch a ?t')
           = (\<exists>a\<in>{''x64'', ''arm64'', ''x86''}. a \<noteq> catalog_arch c \<and> names_arch a ?t)"
    using oth by blast
  have pre: "\<not> (windows_gen c \<noteq> [] \<and> windows_gen c = ''windows 10'' \<and> str_in ''windows 11'' ?t)"
    "\<not> (windows_gen c \<noteq> [] \<and> windows_gen c = ''windows 11'' \<and> str_in ''windows 10'' ?t)"
    "\<not> (startswith ''windows '' (windows_gen c) \<and> str_in ''server'' ?t)"
    "architecture_rule c ?t ?g \<noteq> None"
    using ok kb by (auto simp add: score_candidate_blocks split: if_splits option.splits)
  from pre(4) have norej: "\<not> (\<exists>a\<in>{''x64'', ''arm64'', ''x86''}. a \<noteq> catalog_arch c \<and> names_arch a ?t)"
    using architecture_rule_own [OF arch, of ?t ?g] by (auto split: if_splits)
  have a1: "architecture_rule c ?t ?g = Some ?g"
    using architecture_rule_own [OF arch, of ?t ?g] norej lacked by simp
  have a2: "architecture_rule c ?t' ?g = Some (?g + 25)"
    using architecture_rule_own [OF arch, of ?t' ?g] norej rej own by simp
  have s1: "score_candidate cand kb_id c = version_build_points c ?t ?g"
    using pre(1-3) kb a1 by (auto simp add: score_candidate_blocks)
  have s2: "score_candidate cand' kb_id c = version_build_points c ?t (?g + 25)"
    using pre(1-3) kb a2 by (auto simp add: score_candidate_blocks p g v)
  have shift: "version_build_points c ?t (s + 25) = version_build_points c ?t s + 25" for s
    by (simp add: version_build_points_def Let_def split: option.split)
  show "score_candidate cand' kb_id c = score_candidate cand kb_id c + 25
                \<and> score_candidate cand kb_id c < score_candidate cand' kb_id c"
    using s1 s2 shift [of ?g] by simp
qed

theorem score_candidate_architecture_witness:
  "score_candidate (titled title_arm64) ''KB5031354'' scenario_constraints = - 10000
   \<and> score_candidate (titled title_x64) ''KB5031354'' scenario_constraints
       = score_candidate (titled title_plain) ''KB5031354'' scenario_constraints + 25"
proof -
  have kb: "str_in (lower ''KB5031354'') (lower (title (titled title_arm64)))"
      "str_in (lower ''KB5031354'') (lower (title (titled title_plain)))"
    by code_simp+
  have arch: "catalog_arch scenario_constraints \<in> {''x64'', ''arm64'', ''x86''}"
    by (simp add: scenario_constraints_def)
  have n1: "''arm64'' \<noteq> catalog_arch scenario_constraints"
    by (simp add: scenario_constraints_def)
  have n2: "names_arch ''arm64'' (lower (title (titled title_arm64)))"
    by code_simp
  have n3: "\<not> names_arch (catalog_arch scenario_constraints) (lower (title (titled title_plain)))"
    by code_simp
  have n4: "names_arch (catalog_arch scenario_constraints) (lower (title (titled title_x64)))"
    by code_simp
  have n5: "same_other_signals ''KB5031354'' scenario_constraints
              (lower (title (titled title_plain))) (lower (title (titled title_x64)))"
    by code_simp
  have n6: "score_candidate (titled title_plain) ''KB5031354'' scenario_constraints \<noteq> - 10000"
    by (simp add: score_title_plain)
  from score_candidate_architecture [OF kb(1) arch] n1 n2
  have a: "score_candidate (titled title_arm64) ''KB5031354'' scenario_constraints = - 10000"
    by blast
  from score_candidate_architecture [OF kb(2) arch] n3 n4 n5 n6
  have b: "score_candidate (titled title_x64) ''KB5031354'' scenario_constraints
       = score_candidate (titled title_plain) ''KB5031354'' scenario_constraints + 25"
    by blast
  from a b show ?thesis by simp
qed

lemma strptime_Y_b_valid:
  assumes "strptime_Y_b s = Inr d"
  shows "1 \<le> dt_year d \<and> dt_year d \<le> 9999 \<and> 1 \<le> dt_month d \<and> dt_month d \<le> 12
         \<and> dt_day d = 1 \<and> dt_time d = 0 \<and> s \<noteq> []"
  using assms
  by (cases s rule: strptime_Y_b.cases)
     (auto simp: first_of_month_def split: if_splits option.splits)

lemma month_id_at_index:
  assumes "1 \<le> m" "m \<le> 12"
  shows "month_id_at (12 * y + m - 1)
           = strftime_Y_b \<lparr> dt_year = y, dt_month = m, dt_day = 1, dt_time = 0 \<rparr>"
proof -
  have e: "12 * y + m - 1 = (m - 1) + y * 12" by simp
  have "(12 * y + m - 1) div 12 = y" unfolding e using assms by simp
  moreover have "(12 * y + m - 1) mod 12 + 1 = m" unfolding e using assms by simp
  ultimately show ?thesis by (simp add: month_id_at_def)
qed

lemma month_loop_run:
  fixes ye me :: int
  assumes e: "1 \<le> ye" "ye \<le> 9999" "1 \<le> me" "me \<le> 12"
      and c: "1 \<le> y" "1 \<le> m" "m \<le> 12" "12 * y + m \<le> 12 * ye + me"
  shows "month_loop \<lparr> dt_year = ye, dt_month = me, dt_day = 1, dt_time = 0 \<rparr> mm y m ids
           = Inr (ids @ map month_id_at
                          (take (nat (max 1 (mm - int (length ids))))
                             [12 * y + m - 1 .. 12 * ye + me - 1]))"
  using c
proof (induction "nat (12 * ye + me - (12 * y + m))" arbitrary: y m ids rule: less_induct)
  case less
  let ?end = "\<lparr> dt_year = ye, dt_month = me, dt_day = 1, dt_time = 0 \<rparr>"
  let ?cur = "\<lparr> dt_year = y, dt_month = m, dt_day = 1, dt_time = 0 \<rparr>"
  let ?i = "12 * y + m - 1" and ?ie = "12 * ye + me - 1"
  let ?k = "nat (max 1 (mm - int (length ids)))"
  have y9: "y \<le> 9999" using less.prems e by arith
  have fm: "first_of_month y m = Inr ?cur"
    using less.prems y9 by (simp add: first_of_month_def)
  have nl: "\<not> dt_less ?end ?cur"
    using less.prems e by (auto simp: dt_less_def)
  have id: "month_id_at ?i = strftime_Y_b ?cur"
    using less.prems by (simp add: month_id_at_index)
  have le: "?i \<le> ?ie" using less.prems by simp
  have up: "[?i..?ie] = ?i # [?i + 1..?ie]"
    using le by (simp add: upto_rec1)
  have k1: "1 \<le> ?k" by simp
  show ?case
  proof (cases "?cur = ?end \<or> mm \<le> int (length ids) + 1")
    case True
    have l: "month_loop ?end mm y m ids = Inr (ids @ [strftime_Y_b ?cur])"
      using True by (subst month_loop.simps) (auto simp add: fm nl Let_def)
    have "take ?k [?i..?ie] = [?i]"
    proof (cases "?cur = ?end")
      case True
      then have "?i = ?ie" by simp
      then have "[?i..?ie] = [?i]" by simp
      then show ?thesis using k1 by (simp add: take_Cons')
    next
      case False
      with True have "mm \<le> int (length ids) + 1" by blast
      then have "?k = 1" by simp
      then show ?thesis using up by simp
    qed
    then show ?thesis using l id by simp
  next
    case False
    then have ne: "?cur \<noteq> ?end" and big: "int (length ids) + 1 < mm" by auto
    from ne have ne': "\<not> (y = ye \<and> m = me)" by simp
    let ?ids = "ids @ [strftime_Y_b ?cur]"
    let ?y' = "if m + 1 = 13 then y + 1 else y" and ?m' = "if m + 1 = 13 then 1 else m + 1"
    have step: "month_loop ?end mm y m ids = month_loop ?end mm ?y' ?m' ?ids"
      using ne big by (subst month_loop.simps) (auto simp add: fm nl Let_def)
    have lt: "12 * y + m < 12 * ye + me"
    proof (rule ccontr)
      assume "\<not> 12 * y + m < 12 * ye + me"
      with less.prems(4) have eq: "12 * y + m = 12 * ye + me" by simp
      then have d: "12 * (y - ye) = me - m" by simp
      have "me - m < 12" and "- 12 < me - m"
        using less.prems(2,3) e(3,4) by simp_all
      with d have "y - ye < 1" and "- 1 < y - ye" by simp_all
      then have "y = ye" by simp
      with eq have "m = me" by simp
      with \<open>y = ye\<close> ne' show False by simp
    qed
    have idx: "12 * ?y' + ?m' = 12 * y + m + 1" by simp
    have prem: "1 \<le> ?y'" "1 \<le> ?m'" "?m' \<le> 12" "12 * ?y' + ?m' \<le> 12 * ye + me"
      using less.prems lt by auto
    have dec: "nat (12 * ye + me - (12 * ?y' + ?m')) < nat (12 * ye + me - (12 * y + m))"
      using lt by auto
    have ih: "month_loop ?end mm ?y' ?m' ?ids
                = Inr (?ids @ map month_id_at
                          (take (nat (max 1 (mm - int (length ?ids))))
                             [12 * ?y' + ?m' - 1 .. ?ie]))"
      by (rule less.hyps [OF dec prem])
    have i1: "12 * ?y' + ?m' - 1 = ?i + 1" by simp
    have kk: "nat (max 1 (mm - int (length ?ids))) = ?k - 1" using big by simp
    have k2: "?k \<noteq> 0" using k1 by simp
    have "take ?k [?i..?ie] = ?i # take (?k - 1) [?i + 1..?ie]"
      using up k2 by (simp add: take_Cons')
    then show ?thesis
      unfolding step ih i1 kk using id by simp
  qed
qed

lemma dt_less_index:
  assumes "1 \<le> dt_month a" "dt_month a \<le> 12" "dt_day a = 1" "dt_time a = 0"
      and "1 \<le> dt_month b" "dt_month b \<le> 12" "dt_day b = 1" "dt_time b = 0"
  shows "dt_less a b = (month_index a < month_index b)"
  using assms by (auto simp: dt_less_def month_index_def)

lemma build_month_ids_from_lcu_closed:
  assumes admin: "IsAdmin baseline = Some True"
      and lcu: "LcuMonthId baseline = Some lcu" "strptime_Y_b lcu = Inr start"
      and latest: "MsrcLatestMonthId baseline = Some latest" "strptime_Y_b latest = Inr end_dt"
  shows "build_month_ids_from_lcu now baseline max_months =
           Inr (map month_id_at (take (nat (max 1 max_months))
                  [min (month_index start) (month_index end_dt) .. month_index end_dt]))"
proof -
  note vs = strptime_Y_b_valid [OF lcu(2)] and ve = strptime_Y_b_valid [OF latest(2)]
  have end_eq: "end_dt = \<lparr> dt_year = dt_year end_dt, dt_month = dt_month end_dt, dt_day = 1, dt_time = 0 \<rparr>"
    using ve by simp
  let ?s = "if dt_less end_dt start then end_dt else start"
  have dl: "dt_less end_dt start = (month_index end_dt < month_index start)"
    using vs ve by (simp add: dt_less_index)
  have b: "build_month_ids_from_lcu now baseline max_months
             = month_loop end_dt max_months (dt_year ?s) (dt_month ?s) []"
    using admin lcu latest vs ve
    by (simp add: build_month_ids_from_lcu_def get_str_def Let_def)
  have sv: "1 \<le> dt_year ?s" "1 \<le> dt_month ?s" "dt_month ?s \<le> 12"
    using vs ve by auto
  have sle: "12 * dt_year ?s + dt_month ?s \<le> 12 * dt_year end_dt + dt_month end_dt"
    using dl by (auto simp: month_index_def)
  have "month_loop \<lparr> dt_year = dt_year end_dt, dt_month = dt_month end_dt, dt_day = 1, dt_time = 0 \<rparr>
            max_months (dt_year ?s) (dt_month ?s) []
          = Inr ([] @ map month_id_at
                          (take (nat (max 1 (max_months - int (length ([]::string list)))))
                             [12 * dt_year ?s + dt_month ?s - 1
                               .. 12 * dt_year end_dt + dt_month end_dt - 1]))"
    using ve sv sle by (intro month_loop_run) auto
  moreover have "12 * dt_year ?s + dt_month ?s - 1 = min (month_index start) (month_index end_dt)"
    using dl by (auto simp: month_index_def)
  ultimately show ?thesis
    using b end_eq by (simp add: month_index_def)
qed

lemma parse_2024_Jan:
  "strptime_Y_b ''2024-Jan'' = Inr \<lparr> dt_year = 2024, dt_month = 1, dt_day = 1, dt_time = 0 \<rparr>"
  by code_simp

lemma parse_2024_Mar:
  "strptime_Y_b ''2024-Mar'' = Inr \<lparr> dt_year = 2024, dt_month = 3, dt_day = 1, dt_time = 0 \<rparr>"
  by code_simp

lemma month_ids_2024_Jan_Mar:
  "map month_id_at [24288, 24289, 24290] = [''2024-Jan'', ''2024-Feb'', ''2024-Mar'']"
  by (simp add: month_id_at_def strftime_Y_b_def month_abbr_def)

lemma month_id_2024_Jan: "month_id_at 24288 = ''2024-Jan''"
  using month_ids_2024_Jan_Mar by simp

text \<open>
  Claim C7. For a baseline collected with elevation whose start month and end month both
  parse as \<open>YYYY-Mon\<close>, and a cap \<open>max_months\<close> of at least 1 (the default is 48),
  \<open>build_month_ids_from_lcu\<close> returns the identifiers of the consecutive calendar months
  from the start month to the end month inclusive, in chronological order, when the range
  has at most \<open>max_months\<close> months, and the first \<open>max_months\<close> of them otherwise; it
  returns the single end month when the start is after the end; it returns at least one
  and at most \<open>max_months\<close> identifiers. With start \<open>2024-Jan\<close>, end \<open>2024-Mar\<close> and a
  cap of at least 3 the result is exactly \<open>2024-Jan\<close>, \<open>2024-Feb\<close>, \<open>2024-Mar\<close>.
\<close>

theorem build_month_ids_from_lcu_months:
  assumes "IsAdmin baseline = Some True"
      and "LcuMonthId baseline = Some lcu" and "strptime_Y_b lcu = Inr start"
      and "MsrcLatestMonthId baseline = Some latest" and "strptime_Y_b latest = Inr end_dt"
      and "1 \<le> max_months"
  shows "build_month_ids_from_lcu now baseline max_months
           = Inr (map month_id_at (take (nat max_months)
                    [min (month_index start) (month_index end_dt) .. month_index end_dt]))
       \<and> (month_index start \<le> month_index end_dt
            \<and> month_index end_dt - month_index start < max_months
          \<longrightarrow> build_month_ids_from_lcu now baseline max_months
                = Inr (map month_id_at [month_index start .. month_index end_dt]))
       \<and> (month_index end_dt < month_index start
          \<longrightarrow> build_month_ids_from_lcu now baseline max_months
                = Inr [month_id_at (month_index end_dt)])
       \<and> (\<exists>ids. build_month_ids_from_lcu now baseline max_months = Inr ids
                \<and> 1 \<le> length ids \<and> int (length ids) \<le> max_months)
       \<and> (lcu = ''2024-Jan'' \<and> latest = ''2024-Mar'' \<and> 3 \<le> max_months
          \<longrightarrow> build_month_ids_from_lcu now baseline max_months
                = Inr [''2024-Jan'', ''2024-Feb'', ''2024-Mar''])"
proof -
  let ?s = "month_index start" and ?e = "month_index end_dt"
  let ?r = "build_month_ids_from_lcu now baseline max_months"
  have cap: "max 1 max_months = max_months" using assms(6) by simp
  have closed: "?r = Inr (map month_id_at (take (nat max_months) [min ?s ?e .. ?e]))"
    using build_month_ids_from_lcu_closed [OF assms(1-5), of now max_months] unfolding cap .
  have fits: "?s \<le> ?e \<and> ?e - ?s < max_months
                \<longrightarrow> ?r = Inr (map month_id_at [?s .. ?e])"
  proof
    assume h: "?s \<le> ?e \<and> ?e - ?s < max_months"
    then have "min ?s ?e = ?s" by simp
    moreover have "length [?s .. ?e] \<le> nat max_months" using h by (simp; arith)
    ultimately show "?r = Inr (map month_id_at [?s .. ?e])"
      using closed by simp
  qed
  have after: "?e < ?s \<longrightarrow> ?r = Inr [month_id_at ?e]"
  proof
    assume h: "?e < ?s"
    then have "[min ?s ?e .. ?e] = [?e]" by simp
    moreover have "nat max_months \<noteq> 0" using assms(6) by simp
    ultimately show "?r = Inr [month_id_at ?e]"
      using closed by (simp add: take_Cons')
  qed
  have "1 \<le> length (take (nat max_months) [min ?s ?e .. ?e])"
    using assms(6) by (auto simp: min_def)
  moreover have "int (length (take (nat max_months) [min ?s ?e .. ?e])) \<le> max_months"
    using assms(6) by (auto simp: min_def)
  ultimately have bound: "\<exists>ids. ?r = Inr ids \<and> 1 \<le> length ids \<and> int (length ids) \<le> max_months"
    using closed by (metis length_map)
  have scenario: "lcu = ''2024-Jan'' \<and> latest = ''2024-Mar'' \<and> 3 \<le> max_months
                    \<longrightarrow> ?r = Inr [''2024-Jan'', ''2024-Feb'', ''2024-Mar'']"
  proof
    assume h: "lcu = ''2024-Jan'' \<and> latest = ''2024-Mar'' \<and> 3 \<le> max_months"
    have s: "?s = 24288" using assms(3) h parse_2024_Jan by (simp add: month_index_def)
    have e: "?e = 24290" using assms(5) h parse_2024_Mar by (simp add: month_index_def)
    have up: "[24288 .. 24290] = [24288, 24289, 24290::int]"
      by (simp add: upto_rec1)
    have "?r = Inr (map month_id_at [?s .. ?e])"
      using fits h unfolding s e by simp
    then show "?r = Inr [''2024-Jan'', ''2024-Feb'', ''2024-Mar'']"
      unfolding s e up month_ids_2024_Jan_Mar .
  qed
  from closed fits after bound scenario show ?thesis by blast
qed

theorem build_month_ids_from_lcu_months_witness:
  "build_month_ids_from_lcu scenario_now (scenario_baseline ''2024-Jan'' ''2024-Mar'') 48
     = Inr [''2024-Jan'', ''2024-Feb'', ''2024-Mar'']
   \<and> build_month_ids_from_lcu scenario_now (scenario_baseline ''2024-Mar'' ''2024-Jan'') 48
     = Inr [''2024-Jan'']
   \<and> build_month_ids_from_lcu scenario_now (scenario_baseline ''2024-Jan'' ''2024-Mar'') 2
     = Inr [''2024-Jan'', ''2024-Feb'']"
proof -
  have up: "[24288 .. 24290] = [24288, 24289, 24290::int]"
    by (simp add: upto_rec1)
  have ids2: "map month_id_at [24288, 24289] = [''2024-Jan'', ''2024-Feb'']"
    using month_ids_2024_Jan_Mar by simp
  have a: "build_month_ids_from_lcu scenario_now (scenario_baseline ''2024-Jan'' ''2024-Mar'') 48
     = Inr [''2024-Jan'', ''2024-Feb'', ''2024-Mar'']"
    using build_month_ids_from_lcu_months
      [of "scenario_baseline ''2024-Jan'' ''2024-Mar''" "''2024-Jan''" _ "''2024-Mar''" _
          48 scenario_now, OF _ _ parse_2024_Jan _ parse_2024_Mar]
      month_ids_2024_Jan_Mar up
    by (simp add: scenario_baseline_def month_index_def)
  have b: "build_month_ids_from_lcu scenario_now (scenario_baseline ''2024-Mar'' ''2024-Jan'') 48
     = Inr [''2024-Jan'']"
    using build_month_ids_from_lcu_months
      [of "scenario_baseline ''2024-Mar'' ''2024-Jan''" "''2024-Mar''" _ "''2024-Jan''" _
          48 scenario_now, OF _ _ parse_2024_Mar _ parse_2024_Jan]
      month_id_2024_Jan
    by (simp add: scenario_baseline_def month_index_def)
  have c: "build_month_ids_from_lcu scenario_now (scenario_baseline ''2024-Jan'' ''2024-Mar'') 2
     = Inr [''2024-Jan'', ''2024-Feb'']"
    using build_month_ids_from_lcu_months
      [of "scenario_baseline ''2024-Jan'' ''2024-Mar''" "''2024-Jan''" _ "''2024-Mar''" _
          2 scenario_now, OF _ _ parse_2024_Jan _ parse_2024_Mar]
      ids2 up
    by (simp add: scenario_baseline_def month_index_def)
  from a b c show ?thesis by simp
qed

text \<open>
  Claim C8, as the code has it. A baseline not collected with elevation and a baseline
  without a start month both make \<open>build_month_ids_from_lcu\<close> raise a \<open>RuntimeError\<close>:
  the two failures have the same exception class and differ in their message only.
\<close>

theorem build_month_ids_from_lcu_errors:
  "(IsAdmin baseline \<noteq> Some True
      \<longrightarrow> build_month_ids_from_lcu now baseline max_months = Inl (RuntimeError not_admin_message))
   \<and> (IsAdmin baseline = Some True \<and> get_str (LcuMonthId baseline) = []
      \<longrightarrow> build_month_ids_from_lcu now baseline max_months = Inl (RuntimeError no_lcu_message))
   \<and> not_admin_message \<noteq> no_lcu_message
   \<and> exception_class (RuntimeError not_admin_message)
       = exception_class (RuntimeError no_lcu_message)"
  by (simp add: build_month_ids_from_lcu_def Let_def not_admin_message_def no_lcu_message_def)

theorem build_month_ids_from_lcu_errors_witness:
  "build_month_ids_from_lcu scenario_now
       ((scenario_baseline ''2024-Jan'' ''2024-Mar'')\<lparr>IsAdmin := Some False\<rparr>) 48
     = Inl (RuntimeError not_admin_message)
   \<and> build_month_ids_from_lcu scenario_now
       ((scenario_baseline ''2024-Jan'' ''2024-Mar'')\<lparr>LcuMonthId := None\<rparr>) 48
     = Inl (RuntimeError no_lcu_message)"
  using build_month_ids_from_lcu_errors
      [of "(scenario_baseline ''2024-Jan'' ''2024-Mar'')\<lparr>IsAdmin := Some False\<rparr>" scenario_now 48]
    build_month_ids_from_lcu_errors
      [of "(scenario_baseline ''2024-Jan'' ''2024-Mar'')\<lparr>LcuMonthId := None\<rparr>" scenario_now 48]
  by (simp add: scenario_baseline_def get_str_def)

text \<open>
  Claim C8 as stated asks for two distinguishable error kinds; the two failures raise the
  same class.
\<close>

theorem build_month_ids_from_lcu_error_kinds_counterexample:
  "raised_class (build_month_ids_from_lcu scenario_now
       ((scenario_baseline ''2024-Jan'' ''2024-Mar'')\<lparr>IsAdmin := Some False\<rparr>) 48)
     = Some ''RuntimeError''
   \<and> raised_class (build_month_ids_from_lcu scenario_now
       ((scenario_baseline ''2024-Jan'' ''2024-Mar'')\<lparr>LcuMonthId := None\<rparr>) 48)
     = Some ''RuntimeError''"
  by code_simp

lemma merge_items_absorbed:
  "list_all (\<lambda>x. x = [] \<or> x \<in> set target) xs \<Longrightarrow> merge_items target xs = target"
  by (induction xs arbitrary: target) auto

lemma set_merge_items_mono: "set target \<subseteq> set (merge_items target xs)"
proof (induction xs arbitrary: target)
  case Nil
  show ?case by simp
next
  case (Cons x xs)
  have "set target \<subseteq> set (if x \<noteq> [] \<and> x \<notin> set target then target @ [x] else target)"
    by auto
  also have "\<dots> \<subseteq> set (merge_items (if x \<noteq> [] \<and> x \<notin> set target then target @ [x] else target) xs)"
    by (rule Cons.IH)
  finally show ?case by simp
qed

lemma merge_items_contains:
  "list_all (\<lambda>x. x = [] \<or> x \<in> set (merge_items target xs)) xs"
proof (induction xs arbitrary: target)
  case Nil
  show ?case by simp
next
  case (Cons x xs)
  let ?t = "if x \<noteq> [] \<and> x \<notin> set target then target @ [x] else target"
  have "x = [] \<or> x \<in> set ?t" by auto
  then have "x = [] \<or> x \<in> set (merge_items ?t xs)"
    using set_merge_items_mono [of ?t xs] by blast
  then show ?case using Cons.IH [of ?t] by simp
qed

lemma list_all_mono_set:
  "list_all (\<lambda>x. x = [] \<or> x \<in> A) xs \<Longrightarrow> A \<subseteq> B \<Longrightarrow> list_all (\<lambda>x. x = [] \<or> x \<in> B) xs"
  by (auto simp: list_all_iff)

lemma map_entry_same:
  "map_of al k = Some v \<Longrightarrow> f v = v \<Longrightarrow> AList.map_entry k f al = al"
  by (induction al) (auto split: if_splits)

text \<open>What one merge step does to the index, as a map.\<close>

lemma map_of_merge_kb_entry:
  assumes "get_str (KB entry) \<noteq> []"
  shows "map_of (merge_kb_entry index entry) k =
           (if k = get_str (KB entry) then
              (let r = (case map_of index k of
                          None \<Rightarrow> \<lparr> rec_KB = k, rec_Months = [], rec_Cves = [],
                                     rec_Supersedes = [], rec_UpdateType = None \<rparr>
                        | Some r \<Rightarrow> r)
               in Some (r\<lparr> rec_Months := merge_items (rec_Months r) (get_list (Months entry)),
                           rec_Cves := merge_items (rec_Cves r) (get_list (Cves entry)),
                           rec_Supersedes :=
                             merge_items (rec_Supersedes r) (get_list (Supersedes entry)) \<rparr>))
            else map_of index k)"
  using assms
  by (auto simp: merge_kb_entry_def Let_def map_of_map_entry map_add_def split: option.splits)

lemma merge_kb_entry_absorbed:
  assumes "absorbed entry index"
  shows "merge_kb_entry index entry = index"
proof (cases "get_str (KB entry) = []")
  case True
  then show ?thesis by (simp add: merge_kb_entry_def)
next
  case False
  with assms obtain r where r: "map_of index (get_str (KB entry)) = Some r"
    and m: "list_all (\<lambda>x. x = [] \<or> x \<in> set (rec_Months r)) (get_list (Months entry))"
    and c: "list_all (\<lambda>x. x = [] \<or> x \<in> set (rec_Cves r)) (get_list (Cves entry))"
    and s: "list_all (\<lambda>x. x = [] \<or> x \<in> set (rec_Supersedes r)) (get_list (Supersedes entry))"
    by (auto simp: absorbed_def split: option.splits)
  have em: "merge_items (rec_Months r) (get_list (Months entry)) = rec_Months r"
    using m by (rule merge_items_absorbed)
  have ec: "merge_items (rec_Cves r) (get_list (Cves entry)) = rec_Cves r"
    using c by (rule merge_items_absorbed)
  have es: "merge_items (rec_Supersedes r) (get_list (Supersedes entry)) = rec_Supersedes r"
    using s by (rule merge_items_absorbed)
  have 1: "AList.map_entry (get_str (KB entry))
             (\<lambda>r. r\<lparr>rec_Months := merge_items (rec_Months r) (get_list (Months entry))\<rparr>) index = index"
    using r by (rule map_entry_same) (simp add: em)
  have 2: "AList.map_entry (get_str (KB entry))
             (\<lambda>r. r\<lparr>rec_Cves := merge_items (rec_Cves r) (get_list (Cves entry))\<rparr>) index = index"
    using r by (rule map_entry_same) (simp add: ec)
  have 3: "AList.map_entry (get_str (KB entry))
             (\<lambda>r. r\<lparr>rec_Supersedes := merge_items (rec_Supersedes r) (get_list (Supersedes entry))\<rparr>)
             index = index"
    using r by (rule map_entry_same) (simp add: es)
  show ?thesis
    using False r by (simp add: merge_kb_entry_def Let_def 1 2 3)
qed

lemma absorbed_merge_kb_entry_self: "absorbed entry (merge_kb_entry index entry)"
proof (cases "get_str (KB entry) = []")
  case True
  then show ?thesis by (simp add: absorbed_def)
next
  case False
  show ?thesis
    unfolding absorbed_def
    using False
    by (simp add: map_of_merge_kb_entry Let_def merge_items_contains)
qed

lemma absorbed_merge_kb_entry_other:
  assumes "absorbed entry index"
  shows "absorbed entry (merge_kb_entry index other)"
proof (cases "get_str (KB entry) = []")
  case True
  then show ?thesis by (simp add: absorbed_def)
next
  case False
  with assms obtain r where r: "map_of index (get_str (KB entry)) = Some r"
    and m: "list_all (\<lambda>x. x = [] \<or> x \<in> set (rec_Months r)) (get_list (Months entry))"
    and c: "list_all (\<lambda>x. x = [] \<or> x \<in> set (rec_Cves r)) (get_list (Cves entry))"
    and s: "list_all (\<lambda>x. x = [] \<or> x \<in> set (rec_Supersedes r)) (get_list (Supersedes entry))"
    by (auto simp: absorbed_def split: option.splits)
  show ?thesis
  proof (cases "get_str (KB other) = []")
    case True
    then show ?thesis using assms by (simp add: merge_kb_entry_def)
  next
    case other: False
    show ?thesis
    proof (cases "get_str (KB entry) = get_str (KB other)")
      case True
      have "list_all (\<lambda>x. x = [] \<or> x \<in> set (merge_items (rec_Months r) (get_list (Months other))))
              (get_list (Months entry))"
        using m set_merge_items_mono by (rule list_all_mono_set)
      moreover have "list_all (\<lambda>x. x = [] \<or> x \<in> set (merge_items (rec_Cves r) (get_list (Cves other))))
              (get_list (Cves entry))"
        using c set_merge_items_mono by (rule list_all_mono_set)
      moreover have "list_all (\<lambda>x. x = [] \<or> x \<in> set (merge_items (rec_Supersedes r)
                (get_list (Supersedes other)))) (get_list (Supersedes entry))"
        using s set_merge_items_mono by (rule list_all_mono_set)
      ultimately show ?thesis
        unfolding absorbed_def using other True r
        by (simp add: map_of_merge_kb_entry Let_def)
    next
      case False
      then show ?thesis
        unfolding absorbed_def using other r m c s
        by (simp add: map_of_merge_kb_entry)
    qed
  qed
qed

lemma absorbed_merge_kb_entries:
  "absorbed entry index \<Longrightarrow> absorbed entry (merge_kb_entries index incoming)"
  by (induction incoming arbitrary: index) (auto intro: absorbed_merge_kb_entry_other)

lemma merge_kb_entries_absorbs:
  "list_all (\<lambda>entry. absorbed entry (merge_kb_entries index incoming)) incoming"
proof (induction incoming arbitrary: index)
  case Nil
  show ?case by simp
next
  case (Cons entry incoming)
  have "absorbed entry (merge_kb_entries (merge_kb_entry index entry) incoming)"
    by (intro absorbed_merge_kb_entries absorbed_merge_kb_entry_self)
  then show ?case using Cons.IH [of "merge_kb_entry index entry"] by simp
qed

lemma merge_kb_entries_absorbed:
  "list_all (\<lambda>entry. absorbed entry index) incoming \<Longrightarrow> merge_kb_entries index incoming = index"
  by (induction incoming) (auto simp: merge_kb_entry_absorbed)

lemma merge_kb_entries_twice:
  "merge_kb_entries (merge_kb_entries index incoming) incoming = merge_kb_entries index incoming"
  by (intro merge_kb_entries_absorbed merge_kb_entries_absorbs)

lemma normalise_record_sets:
  "distinct (rec_Months (normalise_record e)) \<and> sorted (rec_Months (normalise_record e))
   \<and> set (rec_Months (normalise_record e)) = set (rec_Months e)
   \<and> distinct (rec_Cves (normalise_record e)) \<and> sorted (rec_Cves (normalise_record e))
   \<and> set (rec_Cves (normalise_record e)) = set (rec_Cves e)
   \<and> distinct (rec_Supersedes (normalise_record e)) \<and> sorted (rec_Supersedes (normalise_record e))
   \<and> set (rec_Supersedes (normalise_record e)) = set (rec_Supersedes e)"
  by (simp add: normalise_record_def Let_def)

lemma normalise_scenario:
  "normalise_index (merge_kb_entries [] scenario_incoming) =
     [(''KB5031354'',
       \<lparr> rec_KB = ''KB5031354'', rec_Months = [''2023-Nov'', ''2023-Oct''],
         rec_Cves = [''CVE-2023-35349'', ''CVE-2023-36563''],
         rec_Supersedes = [''KB5029351'', ''KB5030219''],
         rec_UpdateType = Some ''Superseding'' \<rparr>),
      (''KB5030219'',
       \<lparr> rec_KB = ''KB5030219'', rec_Months = [''2023-Sep''], rec_Cves = [],
         rec_Supersedes = [], rec_UpdateType = Some ''Standalone'' \<rparr>)]"
  by code_simp

text \<open>
  Claim C6. For every index and every list of incoming entries, merging the same entries a
  second time changes nothing: the index is the same, and so is the normalised index. After
  normalisation the \<open>Months\<close>, \<open>Cves\<close> and \<open>Supersedes\<close> of every entry are sorted and
  free of duplicates.
\<close>

theorem merge_kb_entries_idempotent:
  "merge_kb_entries (merge_kb_entries existing incoming) incoming
     = merge_kb_entries existing incoming
   \<and> normalise_index (merge_kb_entries (merge_kb_entries existing incoming) incoming)
     = normalise_index (merge_kb_entries existing incoming)
   \<and> (\<forall>(kb_id, e) \<in> set (normalise_index (merge_kb_entries existing incoming)).
        distinct (rec_Months e) \<and> sorted (rec_Months e)
        \<and> distinct (rec_Cves e) \<and> sorted (rec_Cves e)
        \<and> distinct (rec_Supersedes e) \<and> sorted (rec_Supersedes e))"
proof -
  have "\<forall>(kb_id, e) \<in> set (normalise_index index).
        distinct (rec_Months e) \<and> sorted (rec_Months e)
        \<and> distinct (rec_Cves e) \<and> sorted (rec_Cves e)
        \<and> distinct (rec_Supersedes e) \<and> sorted (rec_Supersedes e)" for index
    using normalise_record_sets by (auto simp: normalise_index_def)
  then show ?thesis
    by (simp add: merge_kb_entries_twice)
qed

theorem merge_kb_entries_idempotent_witness:
  "normalise_index (merge_kb_entries (merge_kb_entries [] scenario_incoming) scenario_incoming) =
     [(''KB5031354'',
       \<lparr> rec_KB = ''KB5031354'', rec_Months = [''2023-Nov'', ''2023-Oct''],
         rec_Cves = [''CVE-2023-35349'', ''CVE-2023-36563''],
         rec_Supersedes = [''KB5029351'', ''KB5030219''],
         rec_UpdateType = Some ''Superseding'' \<rparr>),
      (''KB5030219'',
       \<lparr> rec_KB = ''KB5030219'', rec_Months = [''2023-Sep''], rec_Cves = [],
         rec_Supersedes = [], rec_UpdateType = Some ''Standalone'' \<rparr>)]"
  using merge_kb_entries_idempotent [of "[]" scenario_incoming] normalise_scenario
  by simp

subsection \<open>Sets as lists, dictionaries of sets\<close>

lemma set_set_add: "set (set_add x s) = insert x (set s)"
  by (auto simp: set_add_def)

lemma distinct_set_add: "distinct s \<Longrightarrow> distinct (set_add x s)"
  by (simp add: set_add_def)

lemma get_set_setdefault_add:
  "get_set (setdefault_add k x d) k' = (if k' = k then set_add x (get_set d k) else get_set d k')"
  by (simp add: get_set_def setdefault_add_def update_conv')

lemma edges_setdefault_add: "edges (setdefault_add k x d) = insert (k, x) (edges d)"
  by (auto simp: edges_def get_set_setdefault_add set_set_add split: if_splits)

lemma edges_Nil: "edges [] = {}"
  by (simp add: edges_def get_set_def)

lemma set_update_cases:
  "(k', v') \<in> set (AList.update k v d) \<Longrightarrow> (k', v') = (k, v) \<or> (k', v') \<in> set d"
  by (induction d) (auto split: if_splits)

lemma wf_dict_get_set: "wf_dict d \<Longrightarrow> distinct (get_set d k)"
proof (cases "map_of d k")
  case None
  then show ?thesis by (simp add: get_set_def)
next
  case (Some s)
  assume w: "wf_dict d"
  from Some have "(k, s) \<in> set d" by (rule map_of_SomeD)
  with w have "distinct s" by (auto simp: wf_dict_def)
  then show ?thesis using Some by (simp add: get_set_def)
qed

lemma wf_dict_setdefault_add:
  assumes "wf_dict d"
  shows "wf_dict (setdefault_add k x d)"
proof -
  have dk: "distinct (map fst (setdefault_add k x d))"
    using assms by (simp add: wf_dict_def setdefault_add_def distinct_update)
  have dv: "distinct (set_add x (get_set d k))" and ne: "set_add x (get_set d k) \<noteq> []"
    using assms by (auto simp: wf_dict_get_set distinct_set_add set_add_def)
  have "\<forall>(k', v') \<in> set (setdefault_add k x d). distinct v' \<and> v' \<noteq> []"
  proof (clarify)
    fix k' v' assume "(k', v') \<in> set (setdefault_add k x d)"
    then have "(k', v') = (k, set_add x (get_set d k)) \<or> (k', v') \<in> set d"
      unfolding setdefault_add_def by (rule set_update_cases)
    then show "distinct v' \<and> v' \<noteq> []"
      using dv ne assms by (auto simp: wf_dict_def)
  qed
  with dk show ?thesis by (simp add: wf_dict_def)
qed

lemma wf_dict_Nil: "wf_dict []"
  by (simp add: wf_dict_def)

lemma get_set_values: "set (get_set d k) \<subseteq> set (concat (map snd d))"
proof (cases "map_of d k")
  case None
  then show ?thesis by (simp add: get_set_def)
next
  case (Some s)
  then have "(k, s) \<in> set d" by (rule map_of_SomeD)
  then have "set s \<subseteq> set (concat (map snd d))" by force
  then show ?thesis using Some by (simp add: get_set_def)
qed

lemma get_set_edges: "set (get_set d k) = edges d `` {k}"
  by (auto simp: edges_def)

subsection \<open>The inner loop\<close>

lemma visit_olds_result:
  "\<exists>logical_present' superseded_by' new.
     visit_olds root olds (logical_present, superseded_by, seen, stack)
       = (logical_present', superseded_by', seen @ new, stack @ new)
     \<and> set logical_present' = set logical_present \<union> set olds
     \<and> edges superseded_by' = edges superseded_by \<union> set olds \<times> {root}
     \<and> set new = set olds - set seen \<and> distinct new
     \<and> (wf_dict superseded_by \<longrightarrow> wf_dict superseded_by')
     \<and> (distinct logical_present \<longrightarrow> distinct logical_present')"
proof (induction olds arbitrary: logical_present superseded_by seen stack)
  case Nil
  show ?case by simp
next
  case (Cons old olds)
  let ?lp = "set_add old logical_present"
  let ?sb = "setdefault_add old root superseded_by"
  show ?case
  proof (cases "old \<in> set seen")
    case True
    from Cons.IH [of ?lp ?sb seen stack]
    obtain lp' sb' new where
      r: "visit_olds root olds (?lp, ?sb, seen, stack) = (lp', sb', seen @ new, stack @ new)"
      and p: "set lp' = set ?lp \<union> set olds" "edges sb' = edges ?sb \<union> set olds \<times> {root}"
        "set new = set olds - set seen" "distinct new"
        "wf_dict ?sb \<longrightarrow> wf_dict sb'" "distinct ?lp \<longrightarrow> distinct lp'"
      by blast
    have "visit_olds root (old # olds) (logical_present, superseded_by, seen, stack)
            = (lp', sb', seen @ new, stack @ new)"
      using True r by (simp add: Let_def)
    moreover have "set lp' = set logical_present \<union> set (old # olds)"
      using p(1) by (simp add: set_set_add)
    moreover have "edges sb' = edges superseded_by \<union> set (old # olds) \<times> {root}"
      using p(2) by (auto simp: edges_setdefault_add)
    moreover have "set new = set (old # olds) - set seen"
      using p(3) True by auto
    moreover have "wf_dict superseded_by \<longrightarrow> wf_dict sb'"
      using p(5) by (simp add: wf_dict_setdefault_add)
    moreover have "distinct logical_present \<longrightarrow> distinct lp'"
      using p(6) by (simp add: distinct_set_add)
    ultimately show ?thesis using p(4) by blast
  next
    case False
    from Cons.IH [of ?lp ?sb "seen @ [old]" "stack @ [old]"]
    obtain lp' sb' new where
      r: "visit_olds root olds (?lp, ?sb, seen @ [old], stack @ [old])
            = (lp', sb', (seen @ [old]) @ new, (stack @ [old]) @ new)"
      and p: "set lp' = set ?lp \<union> set olds" "edges sb' = edges ?sb \<union> set olds \<times> {root}"
        "set new = set olds - set (seen @ [old])" "distinct new"
        "wf_dict ?sb \<longrightarrow> wf_dict sb'" "distinct ?lp \<longrightarrow> distinct lp'"
      by blast
    have "visit_olds root (old # olds) (logical_present, superseded_by, seen, stack)
            = (lp', sb', seen @ (old # new), stack @ (old # new))"
      using False r by (simp add: Let_def)
    moreover have "set lp' = set logical_present \<union> set (old # olds)"
      using p(1) by (simp add: set_set_add)
    moreover have "edges sb' = edges superseded_by \<union> set (old # olds) \<times> {root}"
      using p(2) by (auto simp: edges_setdefault_add)
    moreover have "set (old # new) = set (old # olds) - set seen"
      using p(3) False by auto
    moreover have "distinct (old # new)"
      using p(3,4) by auto
    moreover have "wf_dict superseded_by \<longrightarrow> wf_dict sb'"
      using p(5) by (simp add: wf_dict_setdefault_add)
    moreover have "distinct logical_present \<longrightarrow> distinct lp'"
      using p(6) by (simp add: distinct_set_add)
    ultimately show ?thesis by blast
  qed
qed

subsection \<open>The measure of the outer loop\<close>

lemma unseen_card: "unseen d seen = card (set (concat (map snd d)) - set seen)"
proof -
  let ?U = "remdups (concat (map snd d))"
  let ?F = "filter (\<lambda>x. x \<notin> set seen) ?U"
  have "distinct ?F" by simp
  then have l: "length ?F = card (set ?F)"
    by (rule distinct_card [symmetric])
  have s: "set ?F = set (concat (map snd d)) - set seen"
    by auto
  show ?thesis unfolding unseen_def l s by (rule refl)
qed

lemma unseen_push:
  assumes "set new \<subseteq> set (concat (map snd d))" and "set new \<inter> set seen = {}" and "distinct new"
  shows "unseen d (seen @ new) + length new = unseen d seen"
proof -
  let ?V = "set (concat (map snd d))"
  have fin: "finite (?V - set seen)" by simp
  have sub: "set new \<subseteq> ?V - set seen" using assms(1,2) by auto
  have "?V - set (seen @ new) = (?V - set seen) - set new" by auto
  then have "card (?V - set (seen @ new)) = card (?V - set seen) - card (set new)"
    using sub fin by (simp add: card_Diff_subset)
  moreover have "card (set new) \<le> card (?V - set seen)"
    using sub fin by (rule card_mono [rotated])
  moreover have "card (set new) = length new"
    using assms(3) by (rule distinct_card)
  ultimately show ?thesis by (simp add: unseen_card)
qed

text \<open>
  One iteration of the \<open>while\<close> loop pops one identifier and pushes only unseen ones, so
  the number of unseen values plus the height of the stack drops by one.
\<close>

lemma iteration_measure:
  assumes "stack \<noteq> []"
    and "visit_olds root (get_set supersedes_map (last stack))
           (logical_present, superseded_by, seen, butlast stack)
         = (logical_present', superseded_by', seen', stack')"
  shows "unseen supersedes_map seen' + length stack' < unseen supersedes_map seen + length stack"
proof -
  let ?olds = "get_set supersedes_map (last stack)"
  from visit_olds_result [of root ?olds logical_present superseded_by seen "butlast stack"] assms(2)
  obtain new where s: "seen' = seen @ new" "stack' = butlast stack @ new"
    and n: "set new = set ?olds - set seen" "distinct new"
    by auto
  have "set new \<subseteq> set (concat (map snd supersedes_map))"
    using n(1) get_set_values [of supersedes_map "last stack"] by auto
  moreover have "set new \<inter> set seen = {}" using n(1) by auto
  ultimately have "unseen supersedes_map (seen @ new) + length new = unseen supersedes_map seen"
    using n(2) by (rule unseen_push)
  moreover have "length (butlast stack) < length stack" using assms(1) by simp
  ultimately show ?thesis using s by simp
qed

subsection \<open>The outer loop ends, and keeps every invariant of its body\<close>

lemma traverse_rule:
  assumes init: "I state"
    and step: "\<And>logical_present superseded_by seen stack.
        I (logical_present, superseded_by, seen, stack) \<Longrightarrow> stack \<noteq> [] \<Longrightarrow>
        I (visit_olds root (get_set supersedes_map (last stack))
             (logical_present, superseded_by, seen, butlast stack))"
  shows "\<exists>logical_present superseded_by seen.
           traverse supersedes_map root state = Some (logical_present, superseded_by, seen, [])
           \<and> I (logical_present, superseded_by, seen, [])"
  using init
proof (induction "unseen supersedes_map (fst (snd (snd state))) + length (snd (snd (snd state)))"
        arbitrary: state rule: less_induct)
  case less
  obtain lp sb seen stack where st: "state = (lp, sb, seen, stack)"
    by (cases state) auto
  show ?case
  proof (cases "stack = []")
    case True
    have "traverse supersedes_map root state = Some (lp, sb, seen, [])"
      using True st by (subst traverse.simps) simp
    then show ?thesis using less.prems st True by auto
  next
    case False
    let ?next = "visit_olds root (get_set supersedes_map (last stack)) (lp, sb, seen, butlast stack)"
    obtain lp' sb' seen' stack' where nx: "?next = (lp', sb', seen', stack')"
      by (cases ?next) auto
    have dec: "unseen supersedes_map seen' + length stack' < unseen supersedes_map seen + length stack"
      using False nx by (rule iteration_measure)
    have inv: "I ?next" using less.prems False st by (auto intro: step)
    have unfold: "traverse supersedes_map root state = traverse supersedes_map root ?next"
      using False st by (subst traverse.simps) (simp add: Let_def)
    from less.hyps [of ?next] dec inv nx st
    have "\<exists>logical_present superseded_by seen.
           traverse supersedes_map root ?next = Some (logical_present, superseded_by, seen, [])
           \<and> I (logical_present, superseded_by, seen, [])"
      by simp
    then show ?thesis using unfold by simp
  qed
qed

subsection \<open>What one traversal computes\<close>

lemma traversal_inv_step:
  assumes inv: "traversal_inv (edges supersedes_map) root lp0 sb0
                  (logical_present, superseded_by, seen, stack)"
    and ne: "stack \<noteq> []"
  shows "traversal_inv (edges supersedes_map) root lp0 sb0
           (visit_olds root (get_set supersedes_map (last stack))
              (logical_present, superseded_by, seen, butlast stack))"
proof -
  let ?E = "edges supersedes_map"
  let ?cur = "last stack" and ?bs = "butlast stack"
  let ?olds = "get_set supersedes_map (last stack)"
  from inv have i: "root \<in> set seen" "set stack \<subseteq> set seen" "distinct stack" "distinct seen"
    "\<forall>x \<in> set seen. (root, x) \<in> ?E\<^sup>*"
    "\<forall>x \<in> set seen - set stack. ?E `` {x} \<subseteq> set seen"
    "set logical_present = set lp0 \<union> ?E `` (set seen - set stack)"
    "edges superseded_by = edges sb0 \<union> ?E `` (set seen - set stack) \<times> {root}"
    "wf_dict superseded_by" "distinct logical_present"
    by (simp_all add: traversal_inv_def)
  from visit_olds_result [of root ?olds logical_present superseded_by seen ?bs]
  obtain lp' sb' new where
    r: "visit_olds root ?olds (logical_present, superseded_by, seen, ?bs)
          = (lp', sb', seen @ new, ?bs @ new)"
    and p: "set lp' = set logical_present \<union> set ?olds"
      "edges sb' = edges superseded_by \<union> set ?olds \<times> {root}"
      "set new = set ?olds - set seen" "distinct new"
      "wf_dict superseded_by \<longrightarrow> wf_dict sb'" "distinct logical_present \<longrightarrow> distinct lp'"
    by blast
  have st: "stack = ?bs @ [?cur]" using ne by simp
  have olds: "set ?olds = ?E `` {?cur}" by (rule get_set_edges)
  have cur_seen: "?cur \<in> set seen" using i(2) ne by auto
  have cur_bs: "?cur \<notin> set ?bs"
    using i(3) st by (metis distinct_append disjoint_iff list.set_intros(1) distinct.simps(2))
  have set_st: "set stack = insert ?cur (set ?bs)"
    using st by (metis list.simps(15) rotate1.simps(2) set_rotate1)
  have bs_seen: "set ?bs \<subseteq> set seen" using i(2) set_st by auto
  have new_seen: "set new \<inter> set seen = {}" using p(3) by auto
  have proc: "set (seen @ new) - set (?bs @ new) = insert ?cur (set seen - set stack)"
    using set_st cur_seen cur_bs new_seen by auto
  have img: "?E `` insert ?cur (set seen - set stack) = ?E `` (set seen - set stack) \<union> set ?olds"
    using olds by auto
  have 1: "root \<in> set (seen @ new)" using i(1) by simp
  have 2: "set (?bs @ new) \<subseteq> set (seen @ new)" using bs_seen by auto
  have 3: "distinct (?bs @ new)"
    using i(3) p(4) bs_seen new_seen st by (auto dest: distinct_butlast)
  have 4: "distinct (seen @ new)" using i(4) p(4) new_seen by auto
  have 5: "\<forall>x \<in> set (seen @ new). (root, x) \<in> ?E\<^sup>*"
  proof
    fix x assume "x \<in> set (seen @ new)"
    then consider "x \<in> set seen" | "x \<in> set new" by auto
    then show "(root, x) \<in> ?E\<^sup>*"
    proof cases
      case 1
      then show ?thesis using i(5) by blast
    next
      case 2
      then have "(?cur, x) \<in> ?E" using p(3) olds by auto
      moreover have "(root, ?cur) \<in> ?E\<^sup>*" using i(5) cur_seen by blast
      ultimately show ?thesis by (rule rtrancl_into_rtrancl [rotated])
    qed
  qed
  have 6: "\<forall>x \<in> set (seen @ new) - set (?bs @ new). ?E `` {x} \<subseteq> set (seen @ new)"
  proof
    fix x assume "x \<in> set (seen @ new) - set (?bs @ new)"
    then have "x = ?cur \<or> x \<in> set seen - set stack" using proc by auto
    then show "?E `` {x} \<subseteq> set (seen @ new)"
    proof
      assume "x = ?cur"
      then show ?thesis using olds p(3) by auto
    next
      assume "x \<in> set seen - set stack"
      then have "?E `` {x} \<subseteq> set seen" using i(6) by blast
      then show ?thesis by auto
    qed
  qed
  have 7: "set lp' = set lp0 \<union> ?E `` (set (seen @ new) - set (?bs @ new))"
    unfolding proc img using p(1) i(7) by auto
  have 8: "edges sb' = edges sb0 \<union> ?E `` (set (seen @ new) - set (?bs @ new)) \<times> {root}"
    unfolding proc img using p(2) i(8) by auto
  have 9: "wf_dict sb'" "distinct lp'" using p(5,6) i(9,10) by blast+
  show ?thesis
    unfolding r traversal_inv_def using 1 2 3 4 5 6 7 8 9 by simp
qed

lemma closed_reach:
  assumes "root \<in> S" and "\<forall>x \<in> S. E `` {x} \<subseteq> S" and "(root, y) \<in> E\<^sup>*"
  shows "y \<in> S"
  using assms(3,1,2) by (induction rule: rtrancl_induct) auto

lemma traverse_spec:
  assumes "wf_dict sb0" and "distinct lp0"
  shows "\<exists>logical_present superseded_by seen.
           traverse supersedes_map root (lp0, sb0, [root], [root])
             = Some (logical_present, superseded_by, seen, [])
           \<and> distinct seen
           \<and> set seen = {x. (root, x) \<in> (edges supersedes_map)\<^sup>*}
           \<and> set logical_present = set lp0 \<union> {x. (root, x) \<in> (edges supersedes_map)\<^sup>+}
           \<and> edges superseded_by
               = edges sb0 \<union> {x. (root, x) \<in> (edges supersedes_map)\<^sup>+} \<times> {root}
           \<and> wf_dict superseded_by \<and> distinct logical_present"
proof -
  let ?E = "edges supersedes_map"
  let ?I = "traversal_inv ?E root lp0 sb0"
  have init: "?I (lp0, sb0, [root], [root])"
    using assms by (simp add: traversal_inv_def)
  from traverse_rule [of ?I "(lp0, sb0, [root], [root])" root supersedes_map, OF init]
  obtain lp sb seen where
    t: "traverse supersedes_map root (lp0, sb0, [root], [root]) = Some (lp, sb, seen, [])"
    and inv: "?I (lp, sb, seen, [])"
    using traversal_inv_step by blast
  from inv have i: "root \<in> set seen" "distinct seen"
    "\<forall>x \<in> set seen. (root, x) \<in> ?E\<^sup>*"
    "\<forall>x \<in> set seen. ?E `` {x} \<subseteq> set seen"
    "set lp = set lp0 \<union> ?E `` set seen"
    "edges sb = edges sb0 \<union> ?E `` set seen \<times> {root}"
    "wf_dict sb" "distinct lp"
    by (simp_all add: traversal_inv_def)
  have seen: "set seen = {x. (root, x) \<in> ?E\<^sup>*}"
  proof
    show "set seen \<subseteq> {x. (root, x) \<in> ?E\<^sup>*}" using i(3) by blast
    show "{x. (root, x) \<in> ?E\<^sup>*} \<subseteq> set seen"
      using closed_reach [OF i(1) i(4)] by blast
  qed
  have plus: "?E `` set seen = {x. (root, x) \<in> ?E\<^sup>+}"
    unfolding seen by (auto simp: trancl_unfold_right relcomp_unfold Image_def)
  show ?thesis
    using t i(2) seen i(5-8) unfolding plus by blast
qed

text \<open>Whatever the starting sets are, a traversal ends and has pushed no identifier twice.\<close>

lemma traverse_ends:
  "\<exists>logical_present' superseded_by' seen'.
     traverse supersedes_map root (logical_present, superseded_by, [root], [root])
       = Some (logical_present', superseded_by', seen', [])
     \<and> distinct seen' \<and> set logical_present \<subseteq> set logical_present'"
proof -
  let ?I = "\<lambda>state. case state of (lp, sb, seen, stack) \<Rightarrow>
              distinct seen \<and> set logical_present \<subseteq> set lp"
  have init: "?I (logical_present, superseded_by, [root], [root])" by simp
  have step: "?I (visit_olds root (get_set supersedes_map (last stack)) (lp, sb, seen, butlast stack))"
    if "?I (lp, sb, seen, stack)" for lp sb seen stack
  proof -
    from visit_olds_result [of root "get_set supersedes_map (last stack)" lp sb seen "butlast stack"]
    obtain lp' sb' new where
      r: "visit_olds root (get_set supersedes_map (last stack)) (lp, sb, seen, butlast stack)
            = (lp', sb', seen @ new, butlast stack @ new)"
      and p: "set lp' = set lp \<union> set (get_set supersedes_map (last stack))"
        "set new = set (get_set supersedes_map (last stack)) - set seen" "distinct new"
      by blast
    have "distinct (seen @ new)" using that p(2,3) by auto
    moreover have "set logical_present \<subseteq> set lp'" using that p(1) by auto
    ultimately show ?thesis unfolding r by simp
  qed
  from traverse_rule [of ?I "(logical_present, superseded_by, [root], [root])" root supersedes_map,
      OF init step]
  show ?thesis by auto
qed

subsection \<open>The loop over the installed roots\<close>

lemma expand_roots_spec:
  assumes "wf_dict sb0" and "distinct lp0"
  shows "\<exists>logical_present superseded_by.
           expand_roots supersedes_map roots (lp0, sb0) = Some (logical_present, superseded_by)
           \<and> set logical_present
               = set lp0 \<union> {x. \<exists>root \<in> set roots. (root, x) \<in> (edges supersedes_map)\<^sup>+}
           \<and> edges superseded_by
               = edges sb0 \<union> {(x, root). root \<in> set roots \<and> (root, x) \<in> (edges supersedes_map)\<^sup>+}
           \<and> wf_dict superseded_by \<and> distinct logical_present"
  using assms
proof (induction roots arbitrary: lp0 sb0)
  case Nil
  then show ?case by simp
next
  case (Cons root roots)
  let ?E = "edges supersedes_map"
  from traverse_spec [OF Cons.prems, of supersedes_map root]
  obtain lp1 sb1 seen where
    t: "traverse supersedes_map root (lp0, sb0, [root], [root]) = Some (lp1, sb1, seen, [])"
    and p: "set lp1 = set lp0 \<union> {x. (root, x) \<in> ?E\<^sup>+}"
      "edges sb1 = edges sb0 \<union> {x. (root, x) \<in> ?E\<^sup>+} \<times> {root}"
      "wf_dict sb1" "distinct lp1"
    by blast
  from Cons.IH [OF p(3,4)]
  obtain lp2 sb2 where
    e: "expand_roots supersedes_map roots (lp1, sb1) = Some (lp2, sb2)"
    and q: "set lp2 = set lp1 \<union> {x. \<exists>root \<in> set roots. (root, x) \<in> ?E\<^sup>+}"
      "edges sb2 = edges sb1 \<union> {(x, root). root \<in> set roots \<and> (root, x) \<in> ?E\<^sup>+}"
      "wf_dict sb2" "distinct lp2"
    by blast
  have "expand_roots supersedes_map (root # roots) (lp0, sb0) = Some (lp2, sb2)"
    using t e by simp
  moreover have "set lp2 = set lp0 \<union> {x. \<exists>r \<in> set (root # roots). (r, x) \<in> ?E\<^sup>+}"
    using p(1) q(1) by auto
  moreover have "edges sb2 = edges sb0 \<union> {(x, r). r \<in> set (root # roots) \<and> (r, x) \<in> ?E\<^sup>+}"
    using p(2) q(2) by auto
  ultimately show ?case using q(3,4) by blast
qed

subsection \<open>The supersedes dictionary holds the supersedes relation\<close>

lemma edges_fold_setdefault_add:
  "edges (fold (\<lambda>old. setdefault_add k old) olds d) = edges d \<union> {k} \<times> set olds"
  by (induction olds arbitrary: d) (auto simp: edges_setdefault_add)

lemma edges_build_supersedes_map:
  "edges (build_supersedes_map d kb_entries) = edges d \<union> supersedes_relation kb_entries"
proof (induction kb_entries arbitrary: d)
  case Nil
  show ?case by (simp add: supersedes_relation_def)
next
  case (Cons entry kb_entries)
  have split: "supersedes_relation (entry # kb_entries)
          = (if get_str (KB entry) = [] then {}
             else {get_str (KB entry)} \<times> set (get_list (Supersedes entry)))
            \<union> supersedes_relation kb_entries"
    by (auto simp: supersedes_relation_def)
  show ?case
    unfolding split
    by (simp add: Let_def Cons.IH edges_fold_setdefault_add Un_assoc)
qed

subsection \<open>The result of \<open>compute_supersedence\<close>\<close>

lemma get_set_map_sort:
  "get_set (map (\<lambda>(k, v). (k, sort v)) d) k = sort (get_set d k)"
  by (simp add: get_set_def map_of_map split: option.splits)

lemma compute_supersedence_spec:
  "\<exists>logical_present superseded_by.
     compute_supersedence kb_entries installed_kbs = Some (logical_present, superseded_by)
     \<and> distinct logical_present
     \<and> set logical_present
         = set installed_kbs
           \<union> {x. \<exists>root \<in> set installed_kbs. (root, x) \<in> (supersedes_relation kb_entries)\<^sup>+}
     \<and> (\<forall>x. set (get_set superseded_by x)
               = {root \<in> set installed_kbs. (root, x) \<in> (supersedes_relation kb_entries)\<^sup>+}
             \<and> sorted (get_set superseded_by x) \<and> distinct (get_set superseded_by x))
     \<and> distinct (map fst superseded_by)
     \<and> (\<forall>(x, roots) \<in> set superseded_by. roots \<noteq> [] \<and> sorted roots \<and> distinct roots)"
proof -
  let ?m = "build_supersedes_map [] kb_entries"
  let ?R = "supersedes_relation kb_entries"
  have E: "edges ?m = ?R"
    by (simp add: edges_build_supersedes_map edges_Nil)
  from expand_roots_spec [OF wf_dict_Nil, of "remdups installed_kbs" ?m installed_kbs]
  obtain lp sb where
    e: "expand_roots ?m installed_kbs (remdups installed_kbs, []) = Some (lp, sb)"
    and p: "set lp = set installed_kbs \<union> {x. \<exists>root \<in> set installed_kbs. (root, x) \<in> ?R\<^sup>+}"
      "edges sb = {(x, root). root \<in> set installed_kbs \<and> (root, x) \<in> ?R\<^sup>+}"
      "wf_dict sb" "distinct lp"
    unfolding E by (auto simp: edges_Nil)
  let ?sb = "map (\<lambda>(k, v). (k, sort v)) sb"
  have c: "compute_supersedence kb_entries installed_kbs = Some (lp, ?sb)"
    using e by (simp add: compute_supersedence_def)
  have g: "set (get_set ?sb x) = {root \<in> set installed_kbs. (root, x) \<in> ?R\<^sup>+}
           \<and> sorted (get_set ?sb x) \<and> distinct (get_set ?sb x)" for x
  proof -
    have "set (get_set sb x) = edges sb `` {x}" by (rule get_set_edges)
    then have "set (get_set sb x) = {root \<in> set installed_kbs. (root, x) \<in> ?R\<^sup>+}"
      unfolding p(2) by auto
    moreover have "distinct (get_set sb x)" using p(3) by (rule wf_dict_get_set)
    ultimately show ?thesis by (simp add: get_set_map_sort)
  qed
  have keys: "map fst ?sb = map fst sb" by (induction sb) auto
  have dk: "distinct (map fst ?sb)" unfolding keys using p(3) by (simp add: wf_dict_def)
  have vals: "\<forall>(x, roots) \<in> set ?sb. roots \<noteq> [] \<and> sorted roots \<and> distinct roots"
  proof (clarify)
    fix x roots assume "(x, roots) \<in> set ?sb"
    then obtain v where v: "(x, v) \<in> set sb" and r: "roots = sort v" by auto
    from v p(3) have "distinct v" "v \<noteq> []" by (auto simp: wf_dict_def)
    then have "sort v \<noteq> []" by (metis length_0_conv length_sort)
    then show "roots \<noteq> [] \<and> sorted roots \<and> distinct roots"
      using r \<open>distinct v\<close> by simp
  qed
  from c p(4) p(1) g dk vals show ?thesis by blast
qed

lemma compute_supersedence_scenario:
  "compute_supersedence scenario_kb_entries [''KB5031354'']
     = Some ([''KB5031354'', ''KB5029351'', ''KB5026372''],
             [(''KB5029351'', [''KB5031354'']), (''KB5026372'', [''KB5031354''])])"
  by code_simp

lemma compute_supersedence_cyclic:
  "compute_supersedence cyclic_kb_entries [''KB2'', ''KB4'']
     = Some ([''KB2'', ''KB4'', ''KB3'', ''KB1''],
             [(''KB3'', [''KB2'', ''KB4'']), (''KB1'', [''KB2'', ''KB4'']),
              (''KB2'', [''KB2'', ''KB4''])])"
  by code_simp

text \<open>
  Claim C2. For every list of entries and every installed set, \<open>compute_supersedence\<close>
  returns, and the logically-present set it returns contains every installed identifier.
\<close>

theorem compute_supersedence_superset:
  "\<exists>logical_present superseded_by.
     compute_supersedence kb_entries installed_kbs = Some (logical_present, superseded_by)
     \<and> set installed_kbs \<subseteq> set logical_present"
proof -
  from compute_supersedence_spec [of kb_entries installed_kbs]
  obtain lp sb where
    c: "compute_supersedence kb_entries installed_kbs = Some (lp, sb)"
    and s: "set lp = set installed_kbs
              \<union> {x. \<exists>root \<in> set installed_kbs. (root, x) \<in> (supersedes_relation kb_entries)\<^sup>+}"
    by blast
  have "set installed_kbs \<subseteq> set lp" unfolding s by (rule Un_upper1)
  with c show ?thesis by blast
qed

theorem compute_supersedence_superset_witness:
  "\<exists>logical_present superseded_by.
     compute_supersedence cyclic_kb_entries [''KB9'', ''KB1''] = Some (logical_present, superseded_by)
     \<and> ''KB9'' \<in> set logical_present \<and> ''KB1'' \<in> set logical_present"
  using compute_supersedence_superset [of cyclic_kb_entries "[''KB9'', ''KB1'']"] by simp

text \<open>
  Claim C4. \<open>compute_supersedence\<close> returns; the logically-present set is the installed set
  together with everything reached from an installed identifier along one or more steps of
  the supersedes relation; the superseded-by entry of an identifier is the sorted,
  duplicate-free list of exactly the installed identifiers from which it is reached, so
  the attribution is to the traversal roots and accumulates over all of them. In the
  scenario with KB5031354 installed, KB5031354 superseding KB5029351 and KB5029351
  superseding KB5026372, the three are logically present and both KB5029351 and KB5026372
  are attributed to KB5031354.
\<close>

theorem compute_supersedence_root_attribution:
  "(\<exists>logical_present superseded_by.
      compute_supersedence kb_entries installed_kbs = Some (logical_present, superseded_by)
      \<and> set logical_present
          = set installed_kbs
            \<union> {x. \<exists>root \<in> set installed_kbs. (root, x) \<in> (supersedes_relation kb_entries)\<^sup>+}
      \<and> (\<forall>x. set (get_set superseded_by x)
                = {root \<in> set installed_kbs. (root, x) \<in> (supersedes_relation kb_entries)\<^sup>+}
              \<and> sorted (get_set superseded_by x) \<and> distinct (get_set superseded_by x))
      \<and> distinct (map fst superseded_by)
      \<and> (\<forall>(x, roots) \<in> set superseded_by. roots \<noteq> [] \<and> sorted roots \<and> distinct roots))
   \<and> compute_supersedence scenario_kb_entries [''KB5031354'']
       = Some ([''KB5031354'', ''KB5029351'', ''KB5026372''],
               [(''KB5029351'', [''KB5031354'']), (''KB5026372'', [''KB5031354''])])"
proof (rule conjI)
  from compute_supersedence_spec [of kb_entries installed_kbs]
  obtain lp sb where
    c: "compute_supersedence kb_entries installed_kbs = Some (lp, sb)"
    and p: "set lp = set installed_kbs
              \<union> {x. \<exists>root \<in> set installed_kbs. (root, x) \<in> (supersedes_relation kb_entries)\<^sup>+}"
      "\<forall>x. set (get_set sb x)
                = {root \<in> set installed_kbs. (root, x) \<in> (supersedes_relation kb_entries)\<^sup>+}
              \<and> sorted (get_set sb x) \<and> distinct (get_set sb x)"
      "distinct (map fst sb)"
      "\<forall>(x, roots) \<in> set sb. roots \<noteq> [] \<and> sorted roots \<and> distinct roots"
    by (elim exE conjE)
  show "\<exists>logical_present superseded_by.
      compute_supersedence kb_entries installed_kbs = Some (logical_present, superseded_by)
      \<and> set logical_present
          = set installed_kbs
            \<union> {x. \<exists>root \<in> set installed_kbs. (root, x) \<in> (supersedes_relation kb_entries)\<^sup>+}
      \<and> (\<forall>x. set (get_set superseded_by x)
                = {root \<in> set installed_kbs. (root, x) \<in> (supersedes_relation kb_entries)\<^sup>+}
              \<and> sorted (get_set superseded_by x) \<and> distinct (get_set superseded_by x))
      \<and> distinct (map fst superseded_by)
      \<and> (\<forall>(x, roots) \<in> set superseded_by. roots \<noteq> [] \<and> sorted roots \<and> distinct roots)"
    using c p by (intro exI conjI)
next
  show "compute_supersedence scenario_kb_entries [''KB5031354'']
       = Some ([''KB5031354'', ''KB5029351'', ''KB5026372''],
               [(''KB5029351'', [''KB5031354'']), (''KB5026372'', [''KB5031354''])])"
    by (rule compute_supersedence_scenario)
qed

theorem compute_supersedence_root_attribution_witness:
  "compute_supersedence cyclic_kb_entries [''KB2'', ''KB4'']
     = Some ([''KB2'', ''KB4'', ''KB3'', ''KB1''],
             [(''KB3'', [''KB2'', ''KB4'']), (''KB1'', [''KB2'', ''KB4'']),
              (''KB2'', [''KB2'', ''KB4''])])
   \<and> sorted [''KB2'', ''KB4''] \<and> distinct [''KB2'', ''KB4'']
   \<and> (''KB4'', ''KB3'') \<in> (supersedes_relation cyclic_kb_entries)\<^sup>+"
proof -
  let ?sb = "[(''KB3'', [''KB2'', ''KB4'']), (''KB1'', [''KB2'', ''KB4'']),
              (''KB2'', [''KB2'', ''KB4''])]"
  from compute_supersedence_root_attribution [of cyclic_kb_entries "[''KB2'', ''KB4'']"]
  obtain lp sb where
    c: "compute_supersedence cyclic_kb_entries [''KB2'', ''KB4''] = Some (lp, sb)"
    and g: "\<forall>x. set (get_set sb x)
                = {root \<in> set [''KB2'', ''KB4''].
                     (root, x) \<in> (supersedes_relation cyclic_kb_entries)\<^sup>+}
              \<and> sorted (get_set sb x) \<and> distinct (get_set sb x)"
    and v: "\<forall>(x, roots) \<in> set sb. roots \<noteq> [] \<and> sorted roots \<and> distinct roots"
    by (elim exE conjE)
  have sb: "sb = ?sb" using c unfolding compute_supersedence_cyclic by simp
  have "(''KB3'', [''KB2'', ''KB4'']) \<in> set sb" unfolding sb by simp
  with v have s: "sorted [''KB2'', ''KB4'']" and d: "distinct [''KB2'', ''KB4'']"
    by blast+
  have "get_set ?sb ''KB3'' = [''KB2'', ''KB4'']" by (simp add: get_set_def)
  then have "''KB4'' \<in> set (get_set sb ''KB3'')" unfolding sb by simp
  then have r: "(''KB4'', ''KB3'') \<in> (supersedes_relation cyclic_kb_entries)\<^sup>+"
    using g by blast
  from compute_supersedence_cyclic s d r show ?thesis by (intro conjI)
qed

text \<open>
  Claim C5. \<open>compute_supersedence\<close> returns for every input, cyclic relations included.
  The traversal from any root, over any supersedes dictionary, ends with an empty stack,
  and the identifiers it has pushed (the list \<open>seen\<close>) are pairwise different; for the
  inner loop pushes exactly the identifiers it adds to \<open>seen\<close>, none of which was seen
  before.
\<close>

theorem compute_supersedence_terminates:
  "(\<exists>result. compute_supersedence kb_entries installed_kbs = Some result)
   \<and> (\<exists>logical_present' superseded_by' seen'.
        traverse supersedes_map root (logical_present, superseded_by, [root], [root])
          = Some (logical_present', superseded_by', seen', [])
        \<and> distinct seen')
   \<and> (\<exists>logical_present' superseded_by' new.
        visit_olds root olds (logical_present, superseded_by, seen, stack)
          = (logical_present', superseded_by', seen @ new, stack @ new)
        \<and> distinct new \<and> set new \<inter> set seen = {})"
proof -
  have 1: "\<exists>result. compute_supersedence kb_entries installed_kbs = Some result"
    using compute_supersedence_spec [of kb_entries installed_kbs] by blast
  have 2: "\<exists>logical_present' superseded_by' seen'.
        traverse supersedes_map root (logical_present, superseded_by, [root], [root])
          = Some (logical_present', superseded_by', seen', [])
        \<and> distinct seen'"
    using traverse_ends [of supersedes_map root logical_present superseded_by] by blast
  from visit_olds_result [of root olds logical_present superseded_by seen stack]
  obtain lp' sb' new where
    "visit_olds root olds (logical_present, superseded_by, seen, stack)
       = (lp', sb', seen @ new, stack @ new)"
    and "set new = set olds - set seen" and "distinct new"
    by blast
  then have 3: "\<exists>logical_present' superseded_by' new.
        visit_olds root olds (logical_present, superseded_by, seen, stack)
          = (logical_present', superseded_by', seen @ new, stack @ new)
        \<and> distinct new \<and> set new \<inter> set seen = {}"
    by auto
  from 1 2 3 show ?thesis by blast
qed

theorem compute_supersedence_terminates_witness:
  "(\<exists>result. compute_supersedence cyclic_kb_entries [''KB2'', ''KB4''] = Some result)
   \<and> (\<exists>logical_present' superseded_by' seen'.
        traverse (build_supersedes_map [] cyclic_kb_entries) ''KB2'' ([''KB2'', ''KB4''], [], [''KB2''], [''KB2''])
          = Some (logical_present', superseded_by', seen', [])
        \<and> distinct seen')"
  using compute_supersedence_terminates
    [of cyclic_kb_entries "[''KB2'', ''KB4'']" "build_supersedes_map [] cyclic_kb_entries"
        "''KB2''" "[''KB2'', ''KB4'']" "[]" "[]" "[]" "[]"]
  by (elim conjE) (intro conjI)


end
